theory Spec2Isabelle
  imports Complex_Main
begin

section \<open>PageRank: a shallow embedding of \<^verbatim>\<open>pagerank.py\<close>\<close>

text \<open>
  The ranking engine of \<^verbatim>\<open>pagerank.py\<close>: \<^verbatim>\<open>normalize\<close>, \<^verbatim>\<open>transition_model\<close>,
  \<^verbatim>\<open>sample_pagerank\<close> and \<^verbatim>\<open>iterate_pagerank\<close>.

  \<^item> A Python \<^verbatim>\<open>dict\<close> keeps its keys in insertion order and the sampling scan walks
    them in that order, so a dictionary is an association list; a well-formed one has
    distinct keys.
  \<^item> A Python \<^verbatim>\<open>set\<close> is a list without duplicates, in the order in which the
    interpreter would iterate over it; \<^verbatim>\<open>len\<close> is \<open>length\<close> and \<^verbatim>\<open>in\<close> is
    membership in \<open>set\<close>.
  \<^item> Python floats are idealised as the reals: every statement below is about exact
    arithmetic, and says nothing about rounding.
  \<^item> Exceptions are values of \<open>error + 'a\<close>.
  \<^item> The random source of \<^verbatim>\<open>sample_pagerank\<close> is explicit: the index returned by
    \<^verbatim>\<open>random.randrange\<close> and the sequence of numbers returned by
    \<^verbatim>\<open>random.uniform(0, 1)\<close>.
  \<^item> The \<^verbatim>\<open>while True\<close> loop of \<^verbatim>\<open>iterate_pagerank\<close> has no bound, so it is a
    partial function into \<open>option\<close>: \<open>None\<close> is a run that never returns.
\<close>

subsection \<open>Dictionaries and exceptions\<close>

datatype error = KeyError | ZeroDivisionError | ValueError | IndexError

type_synonym ('k, 'v) dict = "('k \<times> 'v) list"

type_synonym 'p corpus = "('p, 'p list) dict"

definition err_bind :: "error + 'a \<Rightarrow> ('a \<Rightarrow> error + 'b) \<Rightarrow> error + 'b" where
  "err_bind m f = (case m of Inl e \<Rightarrow> Inl e | Inr v \<Rightarrow> f v)"

text \<open>\<^verbatim>\<open>d[k]\<close>: raises \<^verbatim>\<open>KeyError\<close> on a missing key.\<close>

definition getitem :: "('k, 'v) dict \<Rightarrow> 'k \<Rightarrow> error + 'v" where
  "getitem d k = (case map_of d k of None \<Rightarrow> Inl KeyError | Some v \<Rightarrow> Inr v)"

text \<open>\<^verbatim>\<open>d[k] = v\<close>: overwrites in place, a new key goes to the end.\<close>

primrec setitem :: "'k \<Rightarrow> 'v \<Rightarrow> ('k, 'v) dict \<Rightarrow> ('k, 'v) dict" where
  "setitem k v [] = [(k, v)]"
| "setitem k v (e # es) = (if fst e = k then (k, v) # es else e # setitem k v es)"

text \<open>\<^verbatim>\<open>a / b\<close>: raises \<^verbatim>\<open>ZeroDivisionError\<close> when \<^verbatim>\<open>b\<close> is zero.\<close>

definition py_div :: "real \<Rightarrow> real \<Rightarrow> error + real" where
  "py_div a b = (if b = 0 then Inl ZeroDivisionError else Inr (a / b))"

text \<open>\<^verbatim>\<open>d.update(u)\<close>.\<close>

definition dict_update :: "('k, 'v) dict \<Rightarrow> ('k, 'v) dict \<Rightarrow> ('k, 'v) dict" where
  "dict_update d u = fold (\<lambda>(k, v) r. setitem k v r) u d"

text \<open>A well-formed corpus: a dictionary (distinct keys) of sets (distinct elements).\<close>

definition wf_corpus :: "'p corpus \<Rightarrow> bool" where
  "wf_corpus corpus \<longleftrightarrow>
     distinct (map fst corpus) \<and> list_all (\<lambda>(page, links). distinct links) corpus"

subsection \<open>\<^verbatim>\<open>normalize\<close>\<close>

text \<open>
  \<^verbatim>\<open>
  def normalize(dict):
      result = {}
      total = sum(dict.values())
      for key in dict:
          result[key] = (dict[key] / total) * 100
      return result
  \<close>
\<close>

primrec normalize_loop ::
  "real \<Rightarrow> ('k, real) dict \<Rightarrow> 'k list \<Rightarrow> ('k, real) dict \<Rightarrow> error + ('k, real) dict" where
  "normalize_loop total_weight d [] result = Inr result"
| "normalize_loop total_weight d (key # keys) result =
     err_bind (getitem d key) (\<lambda>v.
     err_bind (py_div v total_weight) (\<lambda>q.
       normalize_loop total_weight d keys (setitem key (q * 100) result)))"

definition normalize :: "('k, real) dict \<Rightarrow> error + ('k, real) dict" where
  "normalize d =
     (let total_weight = sum_list (map snd d)
      in normalize_loop total_weight d (map fst d) [])"

subsection \<open>\<^verbatim>\<open>transition_model\<close>\<close>

text \<open>
  \<^verbatim>\<open>
  def transition_model(corpus, page, damping_factor):
      result = {}
      corpus_total_pages_count = len(corpus)
      pages = corpus[page]
      random_transition_probabilities = 1 - damping_factor
      random_transition_probability = random_transition_probabilities / corpus_total_pages_count
      current_page_links = len(pages)
      free_probabilities = 1 - random_transition_probabilities
      rank_per_page = free_probabilities / current_page_links if current_page_links > 0 else 0
      for name in corpus:
          rank = random_transition_probability
          if name in pages:
              rank += rank_per_page
          result[name] = rank
      return result
  \<close>
\<close>

definition transition_model :: "'p corpus \<Rightarrow> 'p \<Rightarrow> real \<Rightarrow> error + ('p, real) dict" where
  "transition_model corpus page damping_factor =
     (let corpus_total_pages_count = length corpus
      in err_bind (getitem corpus page) (\<lambda>pages.
         let random_transition_probabilities = 1 - damping_factor
         in err_bind (py_div random_transition_probabilities (real corpus_total_pages_count))
            (\<lambda>random_transition_probability.
         let current_page_links = length pages;
             free_probabilities = 1 - random_transition_probabilities;
             rank_per_page = (if current_page_links > 0
                              then free_probabilities / real current_page_links else 0)
         in Inr (fold (\<lambda>name result.
                   setitem name (if name \<in> set pages
                                 then random_transition_probability + rank_per_page
                                 else random_transition_probability) result)
                 (map fst corpus) []))))"

subsection \<open>\<^verbatim>\<open>sample_pagerank\<close>\<close>

text \<open>
  \<^verbatim>\<open>
  def sample_pagerank(corpus, damping_factor, n):
      index = random.randrange(0, len(corpus))
      pages = list(corpus.keys())
      page = pages[index]
      samples = {page: 0 for page in pages}
      for i in range(n):
          result = transition_model(corpus, page, damping_factor)
          rnd = random.uniform(0, 1)
          for key in result:
              rnd -= result[key]
              if rnd <= 0:
                  page = key
                  samples[key] += 1
                  break
      return normalize(samples)
  \<close>
  The inner \<^verbatim>\<open>for\<close> loop is \<open>scan\<close>: it returns the key at which it breaks, or
  \<open>None\<close> when it runs to the end of \<^verbatim>\<open>result\<close> without breaking.
\<close>

fun scan :: "('p, real) dict \<Rightarrow> real \<Rightarrow> 'p option" where
  "scan [] rnd = None"
| "scan ((key, prob) # rest) rnd =
     (let rnd' = rnd - prob in if rnd' \<le> 0 then Some key else scan rest rnd')"

text \<open>
  The outer loop, one element of \<open>rnds\<close> for each iteration; the state is the current
  page and the visit counters.
\<close>

fun sample_loop ::
  "'p corpus \<Rightarrow> real \<Rightarrow> real list \<Rightarrow> 'p \<times> ('p, nat) dict \<Rightarrow> error + 'p \<times> ('p, nat) dict" where
  "sample_loop corpus damping_factor [] (page, samples) = Inr (page, samples)"
| "sample_loop corpus damping_factor (rnd # rnds) (page, samples) =
     err_bind (transition_model corpus page damping_factor) (\<lambda>result.
       case scan result rnd of
         None \<Rightarrow> sample_loop corpus damping_factor rnds (page, samples)
       | Some key \<Rightarrow>
           err_bind (getitem samples key) (\<lambda>c.
             sample_loop corpus damping_factor rnds (key, setitem key (c + 1) samples)))"

text \<open>
  \<open>index\<close> is what \<^verbatim>\<open>random.randrange(0, len(corpus))\<close> returns (it raises
  \<^verbatim>\<open>ValueError\<close> on an empty range) and \<open>uniform i\<close> is the number drawn in
  iteration \<open>i\<close>. \<^verbatim>\<open>randrange\<close> never returns an index outside the range; for such an
  \<open>index\<close> the model gives the \<^verbatim>\<open>IndexError\<close> of \<^verbatim>\<open>pages[index]\<close>.
\<close>

definition sample_pagerank ::
  "'p corpus \<Rightarrow> real \<Rightarrow> nat \<Rightarrow> nat \<Rightarrow> (nat \<Rightarrow> real) \<Rightarrow> error + ('p, real) dict" where
  "sample_pagerank corpus damping_factor n index uniform =
     (if length corpus = 0 then Inl ValueError
      else let pages = map fst corpus
           in if index \<ge> length pages then Inl IndexError
              else let page = pages ! index;
                       samples = map (\<lambda>page. (page, 0)) pages
                   in err_bind (sample_loop corpus damping_factor (map uniform [0..<n]) (page, samples))
                        (\<lambda>(page, samples). normalize (map (\<lambda>(key, c). (key, real c)) samples)))"

text \<open>A random source whose every draw of \<^verbatim>\<open>random.uniform(0, 1)\<close> is \<open>r\<close>.\<close>

definition constant_source :: "real \<Rightarrow> nat \<Rightarrow> real" where
  "constant_source r i = r"

subsection \<open>\<^verbatim>\<open>iterate_pagerank\<close>\<close>

text \<open>
  \<^verbatim>\<open>
  def iterate_pagerank(corpus, damping_factor):
      precision = 0.001
      pages = corpus.keys()
      pages_count = len(pages)
      initial = 1 / pages_count
      ranks = {page: initial for page in corpus}
      inbound_links = {page: set() for page in corpus}
      for page in corpus:
          for link in corpus[page]:
              if link in inbound_links:
                  inbound_links[link].add(page)
      k = (1 - damping_factor) / pages_count
      while True:
          changed = False
          ranks_update = {}
          for page in pages:
              acc = 0
              for linking_page in inbound_links[page]:
                  acc += ranks[linking_page] / len(corpus[linking_page])
              update = k + damping_factor * acc
              prev = ranks[page]
              diff = prev - update
              if abs(diff) > precision:
                  ranks_update[page] = update
                  changed = True
          if not changed:
              break
          else:
              ranks.update(ranks_update)
      return normalize(ranks)
  \<close>
\<close>

definition precision :: real where
  "precision = 1 / 1000"

text \<open>
  The body of the loop over \<^verbatim>\<open>corpus[page]\<close> that builds the index. The outer loop
  reads \<^verbatim>\<open>corpus[page]\<close> for the key it is at, that is, it walks the entries of the
  corpus.
\<close>

definition add_inbound :: "'p \<Rightarrow> 'p \<Rightarrow> ('p, 'p list) dict \<Rightarrow> ('p, 'p list) dict" where
  "add_inbound page link inbound_links =
     (case map_of inbound_links link of
        None \<Rightarrow> inbound_links
      | Some s \<Rightarrow> setitem link (List.insert page s) inbound_links)"

definition build_inbound :: "'p corpus \<Rightarrow> ('p, 'p list) dict" where
  "build_inbound corpus =
     fold (\<lambda>(page, links) inbound_links. fold (add_inbound page) links inbound_links)
       corpus (map (\<lambda>page. (page, [])) (map fst corpus))"

text \<open>The loop over \<^verbatim>\<open>inbound_links[page]\<close>.\<close>

primrec acc_loop ::
  "'p corpus \<Rightarrow> ('p, real) dict \<Rightarrow> 'p list \<Rightarrow> real \<Rightarrow> error + real" where
  "acc_loop corpus ranks [] accu = Inr accu"
| "acc_loop corpus ranks (linking_page # rest) accu =
     err_bind (getitem ranks linking_page) (\<lambda>r.
     err_bind (getitem corpus linking_page) (\<lambda>links.
     err_bind (py_div r (real (length links))) (\<lambda>q.
       acc_loop corpus ranks rest (accu + q))))"

text \<open>The loop over \<^verbatim>\<open>pages\<close> of one round; the state is \<^verbatim>\<open>(changed, ranks_update)\<close>.\<close>

fun round_loop ::
  "'p corpus \<Rightarrow> ('p, 'p list) dict \<Rightarrow> real \<Rightarrow> real \<Rightarrow> ('p, real) dict \<Rightarrow> 'p list
     \<Rightarrow> bool \<times> ('p, real) dict \<Rightarrow> error + bool \<times> ('p, real) dict" where
  "round_loop corpus inbound_links k damping_factor ranks [] (changed, ranks_update) =
     Inr (changed, ranks_update)"
| "round_loop corpus inbound_links k damping_factor ranks (page # pages) (changed, ranks_update) =
     err_bind (getitem inbound_links page) (\<lambda>linking.
     err_bind (acc_loop corpus ranks linking 0) (\<lambda>accu.
       let update = k + damping_factor * accu
       in err_bind (getitem ranks page) (\<lambda>prev.
            let diff = prev - update
            in if \<bar>diff\<bar> > precision
               then round_loop corpus inbound_links k damping_factor ranks pages
                      (True, setitem page update ranks_update)
               else round_loop corpus inbound_links k damping_factor ranks pages
                      (changed, ranks_update))))"

text \<open>The \<^verbatim>\<open>while True\<close> loop; it returns the ranks at which it breaks.\<close>

partial_function (option) iterate_loop ::
  "'p corpus \<Rightarrow> ('p, 'p list) dict \<Rightarrow> real \<Rightarrow> real \<Rightarrow> ('p, real) dict
     \<Rightarrow> (error + ('p, real) dict) option" where
  "iterate_loop corpus inbound_links k damping_factor ranks =
     (case round_loop corpus inbound_links k damping_factor ranks (map fst corpus) (False, []) of
        Inl e \<Rightarrow> Some (Inl e)
      | Inr (changed, ranks_update) \<Rightarrow>
          if \<not> changed then Some (Inr ranks)
          else iterate_loop corpus inbound_links k damping_factor (dict_update ranks ranks_update))"

definition iterate_pagerank :: "'p corpus \<Rightarrow> real \<Rightarrow> (error + ('p, real) dict) option" where
  "iterate_pagerank corpus damping_factor =
     (let pages = map fst corpus;
          pages_count = length pages
      in (case py_div 1 (real pages_count) of
            Inl e \<Rightarrow> Some (Inl e)
          | Inr initial \<Rightarrow>
             (let ranks = map (\<lambda>page. (page, initial)) pages;
                  inbound_links = build_inbound corpus
              in (case py_div (1 - damping_factor) (real pages_count) of
                    Inl e \<Rightarrow> Some (Inl e)
                  | Inr k \<Rightarrow>
                     (case iterate_loop corpus inbound_links k damping_factor ranks of
                        None \<Rightarrow> None
                      | Some res \<Rightarrow>
                         (case res of
                            Inl e \<Rightarrow> Some (Inl e)
                          | Inr final_ranks \<Rightarrow> Some (normalize final_ranks)))))))"

subsection \<open>The iterative solver as the specification words it\<close>

text \<open>
  The specification's account of the solver, to be compared with \<open>iterate_pagerank\<close>:
  every rank starts at \<open>1 / N\<close>; the inbound pages of \<open>p\<close> are the pages that link to
  \<open>p\<close>; the candidate rank of \<open>p\<close> is
  \<open>(1 - d) / N + d * (\<Sum> q in inbound(p). rank(q) / |links(q)|)\<close>, computed from the
  ranks of the previous round; a round commits the candidate of exactly those pages
  whose absolute change exceeds 0.001; the solver stops at the first round that commits
  nothing.
\<close>

definition links_of :: "'p corpus \<Rightarrow> 'p \<Rightarrow> 'p list" where
  "links_of corpus q = (case map_of corpus q of Some links \<Rightarrow> links | None \<Rightarrow> [])"

definition rank_of :: "('p, real) dict \<Rightarrow> 'p \<Rightarrow> real" where
  "rank_of ranks q = (case map_of ranks q of Some r \<Rightarrow> r | None \<Rightarrow> 0)"

definition spec_inbound :: "'p corpus \<Rightarrow> 'p \<Rightarrow> 'p list" where
  "spec_inbound corpus p = map fst (filter (\<lambda>(q, links). p \<in> set links) corpus)"

definition spec_candidate :: "'p corpus \<Rightarrow> real \<Rightarrow> ('p, real) dict \<Rightarrow> 'p \<Rightarrow> real" where
  "spec_candidate corpus d ranks p =
     (1 - d) / real (length corpus)
     + d * (\<Sum>q\<leftarrow>spec_inbound corpus p. rank_of ranks q / real (card (set (links_of corpus q))))"

definition spec_exceeds :: "'p corpus \<Rightarrow> real \<Rightarrow> ('p, real) dict \<Rightarrow> 'p \<Rightarrow> bool" where
  "spec_exceeds corpus d ranks p \<longleftrightarrow>
     \<bar>rank_of ranks p - spec_candidate corpus d ranks p\<bar> > 1 / 1000"

definition spec_round :: "'p corpus \<Rightarrow> real \<Rightarrow> ('p, real) dict \<Rightarrow> ('p, real) dict" where
  "spec_round corpus d ranks =
     map (\<lambda>(p, r). (p, if spec_exceeds corpus d ranks p
                        then spec_candidate corpus d ranks p else r)) ranks"

definition spec_converged :: "'p corpus \<Rightarrow> real \<Rightarrow> ('p, real) dict \<Rightarrow> bool" where
  "spec_converged corpus d ranks \<longleftrightarrow>
     list_all (\<lambda>p. \<not> spec_exceeds corpus d ranks p) (map fst ranks)"

partial_function (option) spec_iterate ::
  "'p corpus \<Rightarrow> real \<Rightarrow> ('p, real) dict \<Rightarrow> ('p, real) dict option" where
  "spec_iterate corpus d ranks =
     (if spec_converged corpus d ranks then Some ranks
      else spec_iterate corpus d (spec_round corpus d ranks))"

definition spec_initial :: "'p corpus \<Rightarrow> ('p, real) dict" where
  "spec_initial corpus = map (\<lambda>p. (p, 1 / real (length corpus))) (map fst corpus)"

text \<open>
  Two association lists that stand for the same Python corpus: the same keys in the same
  order, and for each key the same set of links, whatever the order in which the
  interpreter iterates over that set.
\<close>

definition same_corpus :: "'p corpus \<Rightarrow> 'p corpus \<Rightarrow> bool" where
  "same_corpus c1 c2 \<longleftrightarrow>
     map fst c1 = map fst c2 \<and> map (\<lambda>(page, links). set links) c1 = map (\<lambda>(page, links). set links) c2"

section \<open>Properties\<close>

subsection \<open>Dictionaries\<close>

lemma err_bind_simps [simp]:
  "err_bind (Inl e) f = Inl e" "err_bind (Inr v) f = f v"
  by (simp_all add: err_bind_def)

lemma setitem_fresh: "k \<notin> fst ` set d \<Longrightarrow> setitem k v d = d @ [(k, v)]"
  by (induction d) auto

lemma fold_setitem_fresh:
  "distinct ks \<Longrightarrow> set ks \<inter> fst ` set r = {} \<Longrightarrow>
   fold (\<lambda>k r. setitem k (f k) r) ks r = r @ map (\<lambda>k. (k, f k)) ks"
proof (induction ks arbitrary: r)
  case Nil
  then show ?case by simp
next
  case (Cons k ks)
  have "k \<notin> fst ` set r" using Cons.prems by auto
  then have s: "setitem k (f k) r = r @ [(k, f k)]" by (rule setitem_fresh)
  have "set ks \<inter> fst ` set (r @ [(k, f k)]) = {}" using Cons.prems by auto
  with Cons.IH [of "r @ [(k, f k)]"] Cons.prems s show ?case by simp
qed

lemma map_of_key_value: "k \<in> set ks \<Longrightarrow> map_of (map (\<lambda>q. (q, f q)) ks) k = Some (f k)"
  by (induction ks) auto

lemma getitem_Inr: "map_of d k = Some v \<Longrightarrow> getitem d k = Inr v"
  by (simp add: getitem_def)

lemma getitem_Inl: "k \<notin> fst ` set d \<Longrightarrow> getitem d k = Inl KeyError"
  by (simp add: getitem_def map_of_eq_None_iff [THEN iffD2])

lemma normalize_loop_ok:
  "t \<noteq> 0 \<Longrightarrow> distinct (map fst es) \<Longrightarrow> (\<forall>e\<in>set es. map_of d (fst e) = Some (snd e)) \<Longrightarrow>
   fst ` set es \<inter> fst ` set r = {} \<Longrightarrow>
   normalize_loop t d (map fst es) r = Inr (r @ map (\<lambda>(k, v). (k, v / t * 100)) es)"
proof (induction es arbitrary: r)
  case Nil
  then show ?case by simp
next
  case (Cons e es)
  obtain k v where e: "e = (k, v)" by (cases e)
  have g: "getitem d k = Inr v" using Cons.prems(3) e by (simp add: getitem_Inr)
  have "k \<notin> fst ` set r" using Cons.prems(4) e by auto
  then have s: "setitem k (v / t * 100) r = r @ [(k, v / t * 100)]" by (rule setitem_fresh)
  have "fst ` set es \<inter> fst ` set (r @ [(k, v / t * 100)]) = {}"
    using Cons.prems(2,4) e by auto
  with Cons.IH [of "r @ [(k, v / t * 100)]"] Cons.prems
  have "normalize_loop t d (map fst es) (r @ [(k, v / t * 100)]) =
        Inr ((r @ [(k, v / t * 100)]) @ map (\<lambda>(k, v). (k, v / t * 100)) es)"
    by simp
  then show ?case using g s e Cons.prems(1) by (simp add: py_div_def)
qed

lemma normalize_ok:
  assumes "distinct (map fst d)" "sum_list (map snd d) \<noteq> 0"
  shows "normalize d = Inr (map (\<lambda>(k, v). (k, v / sum_list (map snd d) * 100)) d)"
proof -
  have "\<forall>e\<in>set d. map_of d (fst e) = Some (snd e)"
    using assms(1) by auto
  from normalize_loop_ok [OF assms(2) assms(1) this, of "[]"]
  show ?thesis by (simp add: normalize_def)
qed

lemma normalize_fails_on_zero:
  "d \<noteq> [] \<Longrightarrow> sum_list (map snd d) = 0 \<Longrightarrow> normalize d = Inl ZeroDivisionError"
  by (cases d) (auto simp: normalize_def getitem_def py_div_def)

lemma sum_normalized:
  fixes d :: "('k \<times> real) list"
  assumes "t \<noteq> 0" "t = sum_list (map snd d)"
  shows "sum_list (map snd (map (\<lambda>(k, v). (k, v / t * 100)) d)) = 100"
proof -
  have "sum_list (map snd (map (\<lambda>(k, v). (k, v / t * 100)) d)) = sum_list (map (\<lambda>e. snd e * (100 / t)) d)"
    by (simp add: comp_def case_prod_unfold)
  also have "\<dots> = sum_list (map snd d) * (100 / t)"
    by (induction d) (simp_all add: distrib_right add_divide_distrib)
  finally show ?thesis using assms by simp
qed


lemma transition_model_eq:
  assumes "distinct (map fst corpus)" and "map_of corpus page = Some links"
  shows "transition_model corpus page d =
         Inr (map (\<lambda>q. (q, (1 - d) / real (length corpus) +
                            (if q \<in> set links then d / real (length links) else 0)))
                  (map fst corpus))"
proof -
  have ne: "corpus \<noteq> []" using assms(2) by auto
  have g: "getitem corpus page = Inr links" using assms(2) by (rule getitem_Inr)
  define f where "f = (\<lambda>q. if q \<in> set links
      then (1 - d) / real (length corpus) +
           (if length links > 0 then (1 - (1 - d)) / real (length links) else 0)
      else (1 - d) / real (length corpus))"
  have fold_eq: "fold (\<lambda>name result. setitem name (f name) result) (map fst corpus) [] =
      [] @ map (\<lambda>k. (k, f k)) (map fst corpus)"
    by (rule fold_setitem_fresh) (use assms(1) in simp_all)
  have f_eq: "f q = (1 - d) / real (length corpus) +
      (if q \<in> set links then d / real (length links) else 0)" for q
    by (cases links) (simp_all add: f_def)
  have "transition_model corpus page d =
        Inr (fold (\<lambda>name result. setitem name (f name) result) (map fst corpus) [])"
    using g ne by (simp add: transition_model_def py_div_def Let_def f_def)
  then show ?thesis unfolding fold_eq by (simp add: f_eq)
qed

lemma sum_list_indicator:
  fixes c :: real
  shows "(\<Sum>q\<leftarrow>ks. if P q then c else 0) = c * real (length (filter P ks))"
  by (induction ks) (simp_all add: algebra_simps)

lemma length_filter_mem:
  assumes "distinct ks" "distinct ls" "set ls \<subseteq> set ks"
  shows "length (filter (\<lambda>q. q \<in> set ls) ks) = length ls"
proof -
  have "distinct (filter (\<lambda>q. q \<in> set ls) ks)" using assms(1) by simp
  then have "length (filter (\<lambda>q. q \<in> set ls) ks) = card (set (filter (\<lambda>q. q \<in> set ls) ks))"
    by (rule distinct_card [symmetric])
  also have "set (filter (\<lambda>q. q \<in> set ls) ks) = set ls" using assms(3) by auto
  also have "card (set ls) = length ls" using assms(2) by (rule distinct_card)
  finally show ?thesis .
qed

lemma transition_model_sum:
  assumes "distinct (map fst corpus)" and "map_of corpus page = Some links"
    and "distinct links" and "set links \<subseteq> fst ` set corpus"
    and "transition_model corpus page d = Inr result"
  shows "sum_list (map snd result) = (if links = [] then 1 - d else 1)"
proof -
  have ne: "corpus \<noteq> []" using assms(2) by auto
  let ?N = "real (length corpus)"
  let ?g = "\<lambda>q. if q \<in> set links then d / real (length links) else 0"
  have r: "result = map (\<lambda>q. (q, (1 - d) / ?N + ?g q)) (map fst corpus)"
    using transition_model_eq [OF assms(1,2), of d] assms(5) by simp
  have "sum_list (map snd result) = (\<Sum>q\<leftarrow>map fst corpus. (1 - d) / ?N + ?g q)"
    by (simp add: r comp_def)
  also have "\<dots> = (\<Sum>q\<leftarrow>map fst corpus. (1 - d) / ?N) + (\<Sum>q\<leftarrow>map fst corpus. ?g q)"
    by (rule sum_list_addf)
  also have "(\<Sum>q\<leftarrow>map fst corpus. (1 - d) / ?N) =
      real (length (map fst corpus)) * ((1 - d) / ?N)"
    by (rule sum_list_triv)
  also have "\<dots> = 1 - d" using ne by simp
  also have "(\<Sum>q\<leftarrow>map fst corpus. ?g q) =
      d / real (length links) * real (length (filter (\<lambda>q. q \<in> set links) (map fst corpus)))"
    by (rule sum_list_indicator)
  also have "length (filter (\<lambda>q. q \<in> set links) (map fst corpus)) = length links"
    using assms(1,3,4) by (intro length_filter_mem) simp_all
  finally show ?thesis by (cases links) simp_all
qed

subsection \<open>The inbound-link index\<close>

lemma map_fst_setitem: "k \<in> fst ` set d \<Longrightarrow> map fst (setitem k v d) = map fst d"
  by (induction d) auto

lemma map_of_setitem: "map_of (setitem k v d) = (map_of d)(k \<mapsto> v)"
  by (induction d) (auto simp: fun_eq_iff)

lemma map_fst_add_inbound: "map fst (add_inbound page link inb) = map fst inb"
proof (cases "map_of inb link")
  case None
  then show ?thesis by (simp add: add_inbound_def)
next
  case (Some s)
  then have "(link, s) \<in> set inb" by (rule map_of_SomeD)
  then have "link \<in> fst ` set inb" by force
  with Some show ?thesis by (simp add: add_inbound_def map_fst_setitem)
qed

lemma map_of_add_inbound:
  "map_of (add_inbound page link inb) x =
     map_option (\<lambda>s. if x = link then List.insert page s else s) (map_of inb x)"
  by (cases "map_of inb link"; cases "map_of inb x") (auto simp: add_inbound_def map_of_setitem)

lemma map_fst_fold_add_inbound: "map fst (fold (add_inbound page) links inb) = map fst inb"
  by (induction links arbitrary: inb) (simp_all add: map_fst_add_inbound)

lemma map_of_fold_add_inbound:
  "map_of (fold (add_inbound page) links inb) x =
     map_option (\<lambda>s. if x \<in> set links then List.insert page s else s) (map_of inb x)"
proof (induction links arbitrary: inb)
  case Nil
  then show ?case by (simp add: option.map_ident)
next
  case (Cons l links)
  show ?case
    by (cases "map_of inb x") (auto simp: Cons.IH map_of_add_inbound)
qed

lemma map_fst_fold_pages:
  "map fst (fold (\<lambda>(page, links) inb. fold (add_inbound page) links inb) es inb) = map fst inb"
  by (induction es arbitrary: inb) (auto simp: map_fst_fold_add_inbound)

lemma map_of_fold_pages:
  assumes "map_of inb x = Some s"
  shows "\<exists>s'. map_of (fold (\<lambda>(page, links) inb. fold (add_inbound page) links inb) es inb) x = Some s'
           \<and> set s' = set s \<union> {p. \<exists>ls. (p, ls) \<in> set es \<and> x \<in> set ls}
           \<and> (distinct s \<longrightarrow> distinct s')"
  using assms
proof (induction es arbitrary: inb s)
  case Nil
  then show ?case by simp
next
  case (Cons e es)
  obtain p ls where e: "e = (p, ls)" by (cases e)
  let ?s1 = "if x \<in> set ls then List.insert p s else s"
  have 1: "map_of (fold (add_inbound p) ls inb) x = Some ?s1"
    using Cons.prems by (simp add: map_of_fold_add_inbound)
  from Cons.IH [OF 1] obtain s' where
    s': "map_of (fold (\<lambda>(page, links) inb. fold (add_inbound page) links inb) es
           (fold (add_inbound p) ls inb)) x = Some s'"
      "set s' = set ?s1 \<union> {p. \<exists>ls. (p, ls) \<in> set es \<and> x \<in> set ls}"
      "distinct ?s1 \<longrightarrow> distinct s'"
    by blast
  have "set s' = set s \<union> {q. \<exists>ls'. (q, ls') \<in> set (e # es) \<and> x \<in> set ls'}"
    using s'(2) e by auto
  moreover have "distinct s \<longrightarrow> distinct s'" using s'(3) by simp
  ultimately show ?case using s'(1) e by simp
qed

lemma build_inbound_keys: "map fst (build_inbound corpus) = map fst corpus"
  by (simp add: build_inbound_def map_fst_fold_pages comp_def)

lemma build_inbound_entry:
  assumes "x \<in> fst ` set corpus"
  shows "\<exists>xs. map_of (build_inbound corpus) x = Some xs \<and> distinct xs
           \<and> set xs = {p. \<exists>ls. (p, ls) \<in> set corpus \<and> x \<in> set ls}"
proof -
  have "x \<in> set (map fst corpus)" using assms by simp
  then have "map_of (map (\<lambda>page. (page, [])) (map fst corpus)) x = Some []"
    by (rule map_of_key_value)
  from map_of_fold_pages [OF this, of corpus] show ?thesis
    by (auto simp: build_inbound_def)
qed

subsection \<open>One round of the solver\<close>

lemma getitem_rank_of: "p \<in> fst ` set ranks \<Longrightarrow> getitem ranks p = Inr (rank_of ranks p)"
  by (cases "map_of ranks p") (auto simp: getitem_def rank_of_def map_of_eq_None_iff)

lemma getitem_links_of: "p \<in> fst ` set corpus \<Longrightarrow> getitem corpus p = Inr (links_of corpus p)"
  by (cases "map_of corpus p") (auto simp: getitem_def links_of_def map_of_eq_None_iff)

lemma acc_loop_ok:
  assumes "\<forall>q\<in>set xs. q \<in> fst ` set ranks \<and> q \<in> fst ` set corpus \<and> links_of corpus q \<noteq> []"
  shows "acc_loop corpus ranks xs a =
           Inr (a + (\<Sum>q\<leftarrow>xs. rank_of ranks q / real (length (links_of corpus q))))"
  using assms
proof (induction xs arbitrary: a)
  case Nil
  then show ?case by simp
next
  case (Cons q xs)
  have q: "getitem ranks q = Inr (rank_of ranks q)" "getitem corpus q = Inr (links_of corpus q)"
    "links_of corpus q \<noteq> []"
    using Cons.prems by (simp_all add: getitem_rank_of getitem_links_of)
  have "acc_loop corpus ranks xs (a + rank_of ranks q / real (length (links_of corpus q))) =
     Inr (a + rank_of ranks q / real (length (links_of corpus q))
          + (\<Sum>q\<leftarrow>xs. rank_of ranks q / real (length (links_of corpus q))))"
    using Cons.prems by (intro Cons.IH) simp
  then show ?case using q by (simp add: py_div_def add.assoc)
qed

lemma set_spec_inbound:
  "set (spec_inbound corpus p) = {q. \<exists>ls. (q, ls) \<in> set corpus \<and> p \<in> set ls}"
  by (force simp: spec_inbound_def)

lemma distinct_spec_inbound: "distinct (map fst corpus) \<Longrightarrow> distinct (spec_inbound corpus p)"
  unfolding spec_inbound_def by (rule distinct_map_filter)

lemma links_of_mem: "distinct (map fst corpus) \<Longrightarrow> (q, ls) \<in> set corpus \<Longrightarrow> links_of corpus q = ls"
  by (simp add: links_of_def)

lemma wf_corpus_links:
  "wf_corpus corpus \<Longrightarrow> distinct (links_of corpus q)"
  by (cases "map_of corpus q")
     (auto simp: wf_corpus_def links_of_def list_all_iff dest!: map_of_SomeD)

text \<open>The sum that one page's inner loop computes is the specification's sum.\<close>

lemma inbound_sum:
  assumes wf: "wf_corpus corpus" and keys: "map fst ranks = map fst corpus"
    and p: "p \<in> fst ` set corpus"
  shows "err_bind (getitem (build_inbound corpus) p) (\<lambda>linking. acc_loop corpus ranks linking 0)
         = Inr (\<Sum>q\<leftarrow>spec_inbound corpus p.
                  rank_of ranks q / real (card (set (links_of corpus q))))"
proof -
  have dk: "distinct (map fst corpus)" using wf by (simp add: wf_corpus_def)
  from build_inbound_entry [OF p] obtain xs where
    xs: "map_of (build_inbound corpus) p = Some xs" "distinct xs"
      "set xs = {q. \<exists>ls. (q, ls) \<in> set corpus \<and> p \<in> set ls}"
    by blast
  let ?f = "\<lambda>q. rank_of ranks q / real (length (links_of corpus q))"
  have fst_eq: "fst ` set ranks = fst ` set corpus"
    using keys by (metis list.set_map)
  have ok: "\<forall>q\<in>set xs. q \<in> fst ` set ranks \<and> q \<in> fst ` set corpus \<and> links_of corpus q \<noteq> []"
  proof
    fix q assume "q \<in> set xs"
    then obtain ls where ls: "(q, ls) \<in> set corpus" "p \<in> set ls" using xs(3) by blast
    then have "links_of corpus q = ls" using dk by (simp add: links_of_mem)
    moreover have "q \<in> fst ` set corpus" using ls(1) by force
    ultimately show "q \<in> fst ` set ranks \<and> q \<in> fst ` set corpus \<and> links_of corpus q \<noteq> []"
      using ls(2) fst_eq by auto
  qed
  have "err_bind (getitem (build_inbound corpus) p) (\<lambda>linking. acc_loop corpus ranks linking 0)
        = acc_loop corpus ranks xs 0"
    using xs(1) by (simp add: getitem_def)
  also have "\<dots> = Inr (0 + (\<Sum>q\<leftarrow>xs. ?f q))" using ok by (rule acc_loop_ok)
  also have "(\<Sum>q\<leftarrow>xs. ?f q) = sum ?f (set xs)"
    using xs(2) by (rule sum_list_distinct_conv_sum_set)
  also have "set xs = set (spec_inbound corpus p)"
    by (simp add: xs(3) set_spec_inbound)
  also have "sum ?f (set (spec_inbound corpus p)) = (\<Sum>q\<leftarrow>spec_inbound corpus p. ?f q)"
    using distinct_spec_inbound [OF dk] by (rule sum_list_distinct_conv_sum_set [symmetric])
  also have "?f = (\<lambda>q. rank_of ranks q / real (card (set (links_of corpus q))))"
    using wf_corpus_links [OF wf] by (simp add: distinct_card)
  finally show ?thesis by simp
qed

lemma err_bind_assoc: "err_bind m (\<lambda>x. err_bind (g x) h) = err_bind (err_bind m g) h"
  by (cases m) simp_all

lemma round_loop_ok:
  assumes wf: "wf_corpus corpus" and keys: "map fst ranks = map fst corpus"
  shows "set ps \<subseteq> fst ` set corpus \<Longrightarrow> distinct ps \<Longrightarrow> fst ` set upd \<inter> set ps = {} \<Longrightarrow>
    round_loop corpus (build_inbound corpus) ((1 - d) / real (length corpus)) d ranks ps (ch, upd)
    = Inr (ch \<or> (\<exists>p\<in>set ps. spec_exceeds corpus d ranks p),
           upd @ map (\<lambda>p. (p, spec_candidate corpus d ranks p))
                   (filter (spec_exceeds corpus d ranks) ps))"
proof (induction ps arbitrary: ch upd)
  case Nil
  then show ?case by simp
next
  case (Cons p ps)
  let ?k = "(1 - d) / real (length corpus)"
  let ?S = "\<Sum>q\<leftarrow>spec_inbound corpus p. rank_of ranks q / real (card (set (links_of corpus q)))"
  let ?c = "spec_candidate corpus d ranks p"
  have p: "p \<in> fst ` set corpus" using Cons.prems(1) by simp
  have fst_eq: "fst ` set ranks = fst ` set corpus"
    using keys by (metis list.set_map)
  have sum: "err_bind (getitem (build_inbound corpus) p) (\<lambda>linking. acc_loop corpus ranks linking 0)
      = Inr ?S"
    using wf keys p by (rule inbound_sum)
  have prev: "getitem ranks p = Inr (rank_of ranks p)"
    using p fst_eq by (simp add: getitem_rank_of)
  have c: "?k + d * ?S = ?c" by (simp add: spec_candidate_def)
  have ex: "\<bar>rank_of ranks p - ?c\<bar> > precision \<longleftrightarrow> spec_exceeds corpus d ranks p"
    by (simp add: spec_exceeds_def precision_def)
  have fresh: "setitem p ?c upd = upd @ [(p, ?c)]"
    using Cons.prems(3) by (intro setitem_fresh) auto
  have unfold: "round_loop corpus (build_inbound corpus) ?k d ranks (p # ps) (ch, upd) =
    (if spec_exceeds corpus d ranks p
     then round_loop corpus (build_inbound corpus) ?k d ranks ps (True, upd @ [(p, ?c)])
     else round_loop corpus (build_inbound corpus) ?k d ranks ps (ch, upd))"
    unfolding round_loop.simps err_bind_assoc sum
    by (simp add: prev c ex fresh Let_def)
  show ?case
  proof (cases "spec_exceeds corpus d ranks p")
    case True
    have "fst ` set (upd @ [(p, ?c)]) \<inter> set ps = {}" using Cons.prems(2,3) by auto
    with Cons.IH [of "upd @ [(p, ?c)]" True] Cons.prems True unfold show ?thesis by simp
  next
    case False
    have "fst ` set upd \<inter> set ps = {}" using Cons.prems(3) by auto
    with Cons.IH [of upd ch] Cons.prems False unfold show ?thesis by simp
  qed
qed

lemma dict_eqI:
  assumes "map fst xs = map fst ys" and "distinct (map fst xs)"
    and "\<And>k. k \<in> fst ` set xs \<Longrightarrow> map_of xs k = map_of ys k"
  shows "xs = ys"
proof (rule nth_equalityI)
  show len: "length xs = length ys" using assms(1) by (rule map_eq_imp_length_eq)
  fix i assume i: "i < length xs"
  have f: "fst (xs ! i) = fst (ys ! i)"
    using assms(1) i len by (metis nth_map)
  have dy: "distinct (map fst ys)" using assms(1,2) by simp
  have "(fst (xs ! i), snd (xs ! i)) \<in> set xs" using i by simp
  then have 1: "map_of xs (fst (xs ! i)) = Some (snd (xs ! i))"
    using assms(2) by (rule map_of_is_SomeI [rotated])
  have "(fst (ys ! i), snd (ys ! i)) \<in> set ys" using i len by simp
  then have 2: "map_of ys (fst (ys ! i)) = Some (snd (ys ! i))"
    using dy by (rule map_of_is_SomeI [rotated])
  have "fst (xs ! i) \<in> fst ` set xs" using i by simp
  then have "map_of xs (fst (xs ! i)) = map_of ys (fst (xs ! i))" by (rule assms(3))
  with 1 2 f have "snd (xs ! i) = snd (ys ! i)" by simp
  with f show "xs ! i = ys ! i" by (rule prod_eqI)
qed

lemma map_fst_dict_update:
  "fst ` set u \<subseteq> fst ` set r \<Longrightarrow> map fst (dict_update r u) = map fst r"
  unfolding dict_update_def
proof (induction u arbitrary: r)
  case Nil
  then show ?case by simp
next
  case (Cons e u)
  obtain k v where e: "e = (k, v)" by (cases e)
  have k: "k \<in> fst ` set r" using Cons.prems e by auto
  then have m: "map fst (setitem k v r) = map fst r" by (rule map_fst_setitem)
  then have "fst ` set (setitem k v r) = fst ` set r" by (metis list.set_map)
  then have "fst ` set u \<subseteq> fst ` set (setitem k v r)" using Cons.prems by auto
  from Cons.IH [OF this] m e show ?case by simp
qed

lemma map_of_dict_update: "map_of (dict_update r u) = map_of r ++ map_of (rev u)"
  unfolding dict_update_def
proof (induction u arbitrary: r)
  case Nil
  then show ?case by simp
next
  case (Cons e u)
  obtain k v where e: "e = (k, v)" by (cases e)
  have "map_of (fold (\<lambda>(k, v). setitem k v) (e # u) r)
        = map_of (setitem k v r) ++ map_of (rev u)"
    using Cons.IH [of "setitem k v r"] e by simp
  also have "\<dots> = (map_of r ++ [k \<mapsto> v]) ++ map_of (rev u)"
    by (simp add: map_of_setitem)
  also have "\<dots> = map_of r ++ map_of (rev (e # u))"
    using e by simp
  finally show ?case .
qed

lemma map_of_rev_distinct: "distinct (map fst xs) \<Longrightarrow> map_of (rev xs) = map_of xs"
proof (induction xs)
  case Nil
  then show ?case by simp
next
  case (Cons e xs)
  obtain k v where e: "e = (k, v)" by (cases e)
  have k: "map_of xs k = None" using Cons.prems e by (simp add: map_of_eq_None_iff)
  have "map_of (rev (e # xs)) = [k \<mapsto> v] ++ map_of xs"
    using Cons e by simp
  also have "\<dots> = (map_of xs)(k \<mapsto> v)"
    using k by (auto simp: fun_eq_iff map_add_def split: option.splits)
  finally show ?case using e by simp
qed

lemma dict_update_round:
  assumes d: "distinct (map fst r)"
  shows "dict_update r (map (\<lambda>p. (p, c p)) (filter E (map fst r)))
         = map (\<lambda>(p, v). (p, if E p then c p else v)) r"
proof (rule dict_eqI)
  let ?u = "map (\<lambda>p. (p, c p)) (filter E (map fst r))"
  let ?r' = "map (\<lambda>(p, v). (p, if E p then c p else v)) r"
  have sub: "fst ` set ?u \<subseteq> fst ` set r" by force
  have k': "map fst ?r' = map fst r" by (simp add: comp_def case_prod_unfold)
  show "map fst (dict_update r ?u) = map fst ?r'"
    using map_fst_dict_update [OF sub] k' by simp
  show "distinct (map fst (dict_update r ?u))"
    using map_fst_dict_update [OF sub] d by simp
  fix k assume "k \<in> fst ` set (dict_update r ?u)"
  then have "k \<in> set (map fst (dict_update r ?u))" by simp
  then have kr: "k \<in> set (map fst r)" using map_fst_dict_update [OF sub] by simp
  then obtain v where v: "map_of r k = Some v"
    by (cases "map_of r k") (auto simp: map_of_eq_None_iff)
  have du: "distinct (map fst ?u)" using d by (simp add: comp_def distinct_map_filter)
  have mu: "map_of ?u k = (if E k then Some (c k) else None)"
  proof (cases "E k")
    case True
    then have "k \<in> set (filter E (map fst r))" using kr by simp
    then have "map_of ?u k = Some (c k)" by (rule map_of_key_value)
    with True show ?thesis by simp
  next
    case False
    then have "k \<notin> fst ` set ?u" by force
    then have "map_of ?u k = None" by (simp add: map_of_eq_None_iff)
    with False show ?thesis by simp
  qed
  have "map_of (dict_update r ?u) k = (map_of r ++ map_of ?u) k"
    using du by (simp add: map_of_dict_update map_of_rev_distinct)
  also have "\<dots> = Some (if E k then c k else v)"
    using mu v by (simp add: map_add_def)
  also have "\<dots> = map_of ?r' k"
    using v by (induction r) (auto split: if_splits)
  finally show "map_of (dict_update r ?u) k = map_of ?r' k" .
qed

subsection \<open>The solver's loop and the specification's\<close>

lemma map_fst_spec_round: "map fst (spec_round corpus d ranks) = map fst ranks"
  by (simp add: spec_round_def comp_def case_prod_unfold)

lemma iterate_loop_step:
  assumes wf: "wf_corpus corpus" and keys: "map fst ranks = map fst corpus"
  shows "iterate_loop corpus (build_inbound corpus) ((1 - d) / real (length corpus)) d ranks =
    (if spec_converged corpus d ranks then Some (Inr ranks)
     else iterate_loop corpus (build_inbound corpus) ((1 - d) / real (length corpus)) d
            (spec_round corpus d ranks))"
proof -
  let ?E = "spec_exceeds corpus d ranks"
  let ?u = "map (\<lambda>p. (p, spec_candidate corpus d ranks p)) (filter ?E (map fst corpus))"
  have dk: "distinct (map fst corpus)" using wf by (simp add: wf_corpus_def)
  have rl: "round_loop corpus (build_inbound corpus) ((1 - d) / real (length corpus)) d ranks
      (map fst corpus) (False, []) = Inr (False \<or> (\<exists>p\<in>set (map fst corpus). ?E p), [] @ ?u)"
    using wf keys by (rule round_loop_ok) (use dk in simp_all)
  have conv: "spec_converged corpus d ranks \<longleftrightarrow> \<not> (\<exists>p\<in>set (map fst corpus). ?E p)"
    by (simp add: spec_converged_def keys list_all_iff)
  have "dict_update ranks (map (\<lambda>p. (p, spec_candidate corpus d ranks p)) (filter ?E (map fst ranks)))
      = map (\<lambda>(p, v). (p, if ?E p then spec_candidate corpus d ranks p else v)) ranks"
    using dk keys by (intro dict_update_round) simp
  then have upd: "dict_update ranks ?u = spec_round corpus d ranks"
    by (simp add: keys spec_round_def)
  show ?thesis
    by (subst iterate_loop.simps) (simp add: rl conv upd del: set_map)
qed

lemma spec_to_loop:
  assumes run: "spec_iterate corpus d ranks = Some y"
    and wf: "wf_corpus corpus" and keys: "map fst ranks = map fst corpus"
  shows "iterate_loop corpus (build_inbound corpus) ((1 - d) / real (length corpus)) d ranks
      = Some (Inr y)"
proof -
  let ?P = "\<lambda>corpus d ranks y. wf_corpus corpus \<longrightarrow> map fst ranks = map fst corpus \<longrightarrow>
    iterate_loop corpus (build_inbound corpus) ((1 - d) / real (length corpus)) d ranks
      = Some (Inr y)"
  from run have "?P corpus d ranks y"
  proof (rule spec_iterate.raw_induct [rotated, where P = ?P])
    fix f and c :: "'a corpus" and d r y
    assume IH: "\<And>c d r y. f c d r = Some y \<Longrightarrow> ?P c d r y"
      and body: "(if spec_converged c d r then Some r else f c d (spec_round c d r)) = Some y"
    show "?P c d r y"
    proof (intro impI)
      assume wf: "wf_corpus c" and keys: "map fst r = map fst c"
      show "iterate_loop c (build_inbound c) ((1 - d) / real (length c)) d r = Some (Inr y)"
      proof (cases "spec_converged c d r")
        case True
        then have "y = r" using body by simp
        then show ?thesis using True wf keys by (simp add: iterate_loop_step)
      next
        case False
        then have f: "f c d (spec_round c d r) = Some y" using body by simp
        have "map fst (spec_round c d r) = map fst c"
          using keys by (simp add: map_fst_spec_round)
        with IH [OF f] wf
        have "iterate_loop c (build_inbound c) ((1 - d) / real (length c)) d (spec_round c d r)
          = Some (Inr y)"
          by simp
        then show ?thesis using False wf keys by (simp add: iterate_loop_step)
      qed
    qed
  qed
  with wf keys show ?thesis by simp
qed

lemma loop_to_spec:
  assumes run: "iterate_loop corpus (build_inbound corpus) ((1 - d) / real (length corpus)) d ranks
      = Some z"
    and wf: "wf_corpus corpus" and keys: "map fst ranks = map fst corpus"
  shows "\<exists>y. z = Inr y \<and> spec_iterate corpus d ranks = Some y"
proof -
  let ?P = "\<lambda>corpus inb k d ranks z. wf_corpus corpus \<longrightarrow> inb = build_inbound corpus \<longrightarrow>
    k = (1 - d) / real (length corpus) \<longrightarrow> map fst ranks = map fst corpus \<longrightarrow>
    (\<exists>y. z = Inr y \<and> spec_iterate corpus d ranks = Some y)"
  from run have "?P corpus (build_inbound corpus) ((1 - d) / real (length corpus)) d ranks z"
  proof (rule iterate_loop.raw_induct [rotated, where P = ?P])
    fix f and c :: "'a corpus" and inb k d r z
    assume IH: "\<And>c inb k d r z. f c inb k d r = Some z \<Longrightarrow> ?P c inb k d r z"
      and body: "(case round_loop c inb k d r (map fst c) (False, []) of
          Inl e \<Rightarrow> Some (Inl e)
        | Inr (changed, ranks_update) \<Rightarrow>
            if \<not> changed then Some (Inr r)
            else f c inb k d (dict_update r ranks_update)) = Some z"
    show "?P c inb k d r z"
    proof (intro impI)
      assume wf: "wf_corpus c" and inb: "inb = build_inbound c"
        and k: "k = (1 - d) / real (length c)" and keys: "map fst r = map fst c"
      let ?E = "spec_exceeds c d r"
      let ?u = "map (\<lambda>p. (p, spec_candidate c d r p)) (filter ?E (map fst c))"
      have dk: "distinct (map fst c)" using wf by (simp add: wf_corpus_def)
      have rl: "round_loop c (build_inbound c) ((1 - d) / real (length c)) d r
          (map fst c) (False, []) = Inr (False \<or> (\<exists>p\<in>set (map fst c). ?E p), [] @ ?u)"
        using wf keys by (rule round_loop_ok) (use dk in simp_all)
      have conv: "spec_converged c d r \<longleftrightarrow> \<not> (\<exists>p\<in>set (map fst c). ?E p)"
        by (simp add: spec_converged_def keys list_all_iff)
      have "dict_update r (map (\<lambda>p. (p, spec_candidate c d r p)) (filter ?E (map fst r)))
          = map (\<lambda>(p, v). (p, if ?E p then spec_candidate c d r p else v)) r"
        using dk keys by (intro dict_update_round) simp
      then have upd: "dict_update r ?u = spec_round c d r"
        by (simp add: keys spec_round_def)
      have body': "(if spec_converged c d r then Some (Inr r)
         else f c inb k d (spec_round c d r)) = Some z"
        using body unfolding inb k rl by (auto simp add: conv upd simp del: set_map split: if_splits)
      show "\<exists>y. z = Inr y \<and> spec_iterate c d r = Some y"
      proof (cases "spec_converged c d r")
        case True
        then have "z = Inr r" using body' by simp
        moreover have "spec_iterate c d r = Some r"
          using True by (subst spec_iterate.simps) simp
        ultimately show ?thesis by simp
      next
        case False
        then have f: "f c inb k d (spec_round c d r) = Some z" using body' by simp
        have "map fst (spec_round c d r) = map fst c"
          using keys by (simp add: map_fst_spec_round)
        with IH [OF f] wf inb k
        obtain y where "z = Inr y" "spec_iterate c d (spec_round c d r) = Some y"
          by blast
        moreover have "spec_iterate c d r = spec_iterate c d (spec_round c d r)"
          using False by (subst spec_iterate.simps) simp
        ultimately show ?thesis by simp
      qed
    qed
  qed
  with wf keys show ?thesis by simp
qed

lemma iterate_loop_refines:
  assumes wf: "wf_corpus corpus" and keys: "map fst ranks = map fst corpus"
  shows "iterate_loop corpus (build_inbound corpus) ((1 - d) / real (length corpus)) d ranks
         = map_option Inr (spec_iterate corpus d ranks)"
proof (cases "spec_iterate corpus d ranks")
  case (Some y)
  from spec_to_loop [OF Some wf keys] Some show ?thesis by simp
next
  case None
  have "iterate_loop corpus (build_inbound corpus) ((1 - d) / real (length corpus)) d ranks = None"
  proof (rule ccontr)
    assume "iterate_loop corpus (build_inbound corpus) ((1 - d) / real (length corpus)) d ranks \<noteq> None"
    then obtain z where
      "iterate_loop corpus (build_inbound corpus) ((1 - d) / real (length corpus)) d ranks = Some z"
      by blast
    from loop_to_spec [OF this wf keys] None show False by simp
  qed
  with None show ?thesis by simp
qed

lemma iterate_pagerank_refines:
  assumes wf: "wf_corpus corpus" and ne: "corpus \<noteq> []"
  shows "iterate_pagerank corpus d =
    (case spec_iterate corpus d (spec_initial corpus) of
       None \<Rightarrow> None
     | Some ranks \<Rightarrow> Some (normalize ranks))"
proof -
  have keys: "map fst (spec_initial corpus) = map fst corpus"
    by (simp add: spec_initial_def comp_def)
  have "iterate_pagerank corpus d =
    (case iterate_loop corpus (build_inbound corpus) ((1 - d) / real (length corpus)) d
            (spec_initial corpus) of
       None \<Rightarrow> None
     | Some res \<Rightarrow> (case res of Inl e \<Rightarrow> Some (Inl e) | Inr final_ranks \<Rightarrow> Some (normalize final_ranks)))"
    using ne by (simp add: iterate_pagerank_def py_div_def spec_initial_def Let_def)
  also have "\<dots> = (case spec_iterate corpus d (spec_initial corpus) of
       None \<Rightarrow> None | Some ranks \<Rightarrow> Some (normalize ranks))"
    unfolding iterate_loop_refines [OF wf keys]
    by (cases "spec_iterate corpus d (spec_initial corpus)") simp_all
  finally show ?thesis .
qed

subsection \<open>A corpus of one page without links\<close>

lemma spec_single:
  assumes "d \<noteq> 1"
  shows "\<exists>r. spec_iterate [(a, [])] d (spec_initial [(a, [])]) = Some [(a, r)] \<and> r \<noteq> 0"
proof -
  have cand: "spec_candidate [(a, [])] d r a = 1 - d" for r
    by (simp add: spec_candidate_def spec_inbound_def)
  show ?thesis
  proof (cases "\<bar>d\<bar> > 1 / 1000")
    case False
    then have "spec_converged [(a, [])] d [(a, 1)]"
      by (simp add: spec_converged_def spec_exceeds_def cand rank_of_def)
    then have "spec_iterate [(a, [])] d [(a, 1)] = Some [(a, 1)]"
      by (subst spec_iterate.simps) simp
    then show ?thesis by (simp add: spec_initial_def)
  next
    case True
    then have 1: "\<not> spec_converged [(a, [])] d [(a, 1)]"
      by (simp add: spec_converged_def spec_exceeds_def cand rank_of_def)
    have 2: "spec_round [(a, [])] d [(a, 1)] = [(a, 1 - d)]"
      using True by (simp add: spec_round_def spec_exceeds_def cand rank_of_def)
    have 3: "spec_converged [(a, [])] d [(a, 1 - d)]"
      by (simp add: spec_converged_def spec_exceeds_def cand rank_of_def)
    have "spec_iterate [(a, [])] d [(a, 1)] = spec_iterate [(a, [])] d [(a, 1 - d)]"
      using 1 2 by (subst spec_iterate.simps) simp
    also have "\<dots> = Some [(a, 1 - d)]"
      using 3 by (subst spec_iterate.simps) simp
    finally show ?thesis using assms by (simp add: spec_initial_def)
  qed
qed

lemma normalize_single: "r \<noteq> 0 \<Longrightarrow> normalize [(a, r)] = Inr [(a, 100)]"
  by (simp add: normalize_def getitem_def py_div_def)

lemma iterate_single:
  assumes "d \<noteq> 1"
  shows "iterate_pagerank [(a, [])] d = Some (Inr [(a, 100)])"
proof -
  have wf: "wf_corpus [(a, [])]" by (simp add: wf_corpus_def)
  from spec_single [OF assms, of a] obtain r where
    r: "spec_iterate [(a, [])] d (spec_initial [(a, [])]) = Some [(a, r)]" "r \<noteq> 0"
    by blast
  show ?thesis
    using iterate_pagerank_refines [OF wf, of d] r by (simp add: normalize_single)
qed

subsection \<open>The ranks stay positive\<close>

lemma rank_of_nonneg: "\<forall>e\<in>set ranks. 0 < snd e \<Longrightarrow> 0 \<le> rank_of ranks q"
  by (cases "map_of ranks q") (auto simp: rank_of_def dest!: map_of_SomeD)

lemma spec_candidate_pos:
  assumes "0 \<le> d" "d < 1" "corpus \<noteq> []" "\<forall>e\<in>set ranks. 0 < snd e"
  shows "0 < spec_candidate corpus d ranks p"
proof -
  have "0 \<le> (\<Sum>q\<leftarrow>spec_inbound corpus p. rank_of ranks q / real (card (set (links_of corpus q))))"
    by (rule sum_list_nonneg) (auto simp: rank_of_nonneg [OF assms(4)])
  then have "0 \<le> d * (\<Sum>q\<leftarrow>spec_inbound corpus p. rank_of ranks q / real (card (set (links_of corpus q))))"
    using assms(1) by simp
  moreover have "0 < (1 - d) / real (length corpus)" using assms(2,3) by simp
  ultimately show ?thesis unfolding spec_candidate_def by linarith
qed

lemma spec_round_pos:
  assumes "0 \<le> d" "d < 1" "corpus \<noteq> []" "\<forall>e\<in>set ranks. 0 < snd e"
  shows "\<forall>e\<in>set (spec_round corpus d ranks). 0 < snd e"
  using assms(4) spec_candidate_pos [OF assms]
  by (auto simp: spec_round_def)

lemma spec_iterate_pos:
  assumes run: "spec_iterate corpus d ranks = Some y"
    and d: "0 \<le> d" "d < 1" and ne: "corpus \<noteq> []" and pos: "\<forall>e\<in>set ranks. 0 < snd e"
  shows "(\<forall>e\<in>set y. 0 < snd e) \<and> map fst y = map fst ranks"
proof -
  let ?P = "\<lambda>corpus d ranks y. 0 \<le> d \<longrightarrow> d < 1 \<longrightarrow> corpus \<noteq> [] \<longrightarrow> (\<forall>e\<in>set ranks. 0 < snd e) \<longrightarrow>
    (\<forall>e\<in>set y. 0 < snd e) \<and> map fst y = map fst ranks"
  from run have "?P corpus d ranks y"
  proof (rule spec_iterate.raw_induct [rotated, where P = ?P])
    fix f and c :: "'a corpus" and d r y
    assume IH: "\<And>c d r y. f c d r = Some y \<Longrightarrow> ?P c d r y"
      and body: "(if spec_converged c d r then Some r else f c d (spec_round c d r)) = Some y"
    show "?P c d r y"
    proof (intro impI)
      assume d: "0 \<le> d" "d < 1" and ne: "c \<noteq> []" and pos: "\<forall>e\<in>set r. 0 < snd e"
      show "(\<forall>e\<in>set y. 0 < snd e) \<and> map fst y = map fst r"
      proof (cases "spec_converged c d r")
        case True
        then have "y = r" using body by simp
        then show ?thesis using pos by simp
      next
        case False
        then have f: "f c d (spec_round c d r) = Some y" using body by simp
        have "\<forall>e\<in>set (spec_round c d r). 0 < snd e" using d ne pos by (rule spec_round_pos)
        with IH [OF f] d ne show ?thesis by (simp add: map_fst_spec_round)
      qed
    qed
  qed
  with d ne pos show ?thesis by simp
qed

lemma sum_list_pos_real:
  fixes xs :: "real list"
  shows "xs \<noteq> [] \<Longrightarrow> \<forall>x\<in>set xs. 0 < x \<Longrightarrow> 0 < sum_list xs"
  by (induction xs) (auto intro: add_pos_nonneg sum_list_nonneg less_imp_le)

lemma solver_ranks_positive:
  assumes wf: "wf_corpus corpus" and ne: "corpus \<noteq> []" and d: "0 \<le> d" "d < 1"
    and run: "iterate_loop corpus (build_inbound corpus) ((1 - d) / real (length corpus)) d
                (spec_initial corpus) = Some res"
  shows "\<exists>ranks. res = Inr ranks \<and> distinct (map fst ranks) \<and> 0 < sum_list (map snd ranks)"
proof -
  have keys: "map fst (spec_initial corpus) = map fst corpus"
    by (simp add: spec_initial_def comp_def)
  from loop_to_spec [OF run wf keys] obtain y where
    y: "res = Inr y" "spec_iterate corpus d (spec_initial corpus) = Some y"
    by blast
  have "\<forall>e\<in>set (spec_initial corpus). 0 < snd e"
    using ne by (auto simp: spec_initial_def)
  from spec_iterate_pos [OF y(2) d ne this]
  have pos: "\<forall>e\<in>set y. 0 < snd e" and ky: "map fst y = map fst corpus"
    by (simp_all add: keys)
  have "y \<noteq> []" using ky ne by auto
  then have "0 < sum_list (map snd y)" using pos by (intro sum_list_pos_real) auto
  moreover have "distinct (map fst y)" using ky wf by (simp add: wf_corpus_def)
  ultimately show ?thesis using y(1) by simp
qed

subsection \<open>Rejected inputs, and sampling on one page\<close>

lemma transition_model_KeyError:
  "page \<notin> fst ` set corpus \<Longrightarrow> transition_model corpus page d = Inl KeyError"
  by (simp add: transition_model_def getitem_Inl)

lemma sample_empty: "sample_pagerank [] d n index uniform = Inl ValueError"
  by (simp add: sample_pagerank_def)

lemma iterate_empty: "iterate_pagerank [] d = Some (Inl ZeroDivisionError)"
  by (simp add: iterate_pagerank_def py_div_def)

lemma transition_single: "transition_model [(a, [])] a d = Inr [(a, 1 - d)]"
  by (simp add: transition_model_def getitem_def py_div_def)

lemma sample_loop_single:
  "sample_loop [(a, [])] d rnds (a, [(a, c)]) =
     Inr (a, [(a, c + length (filter (\<lambda>r. r \<le> 1 - d) rnds))])"
proof (induction rnds arbitrary: c)
  case Nil
  then show ?case by simp
next
  case (Cons r rnds)
  show ?case
  proof (cases "r \<le> 1 - d")
    case True
    then have "scan [(a, 1 - d)] r = Some a" by simp
    then show ?thesis using True Cons.IH [of "c + 1"]
      by (simp add: transition_single getitem_def)
  next
    case False
    then have "scan [(a, 1 - d)] r = None" by simp
    then show ?thesis using False Cons.IH [of c]
      by (simp add: transition_single)
  qed
qed

lemma sample_single:
  assumes "i < n" "uniform i \<le> 1 - d"
  shows "sample_pagerank [(a, [])] d n 0 uniform = Inr [(a, 100)]"
proof -
  let ?m = "length (filter (\<lambda>r. r \<le> 1 - d) (map uniform [0..<n]))"
  have "uniform i \<in> set (filter (\<lambda>r. r \<le> 1 - d) (map uniform [0..<n]))"
    using assms by auto
  then have "0 < ?m" by (rule length_pos_if_in_set)
  then have m: "?m \<noteq> 0" by simp
  have "sample_pagerank [(a, [])] d n 0 uniform = normalize [(a, real ?m)]"
    using sample_loop_single [of a d "map uniform [0..<n]" 0]
    by (simp add: sample_pagerank_def)
  also have "\<dots> = Inr [(a, 100)]" using m
    by (simp add: normalize_def getitem_def py_div_def)
  finally show ?thesis .
qed

subsection \<open>The order of iteration over a set of links does not matter\<close>

lemma same_corpus_Cons:
  "same_corpus (e1 # c1) c2 \<longleftrightarrow>
     (\<exists>e2 c2'. c2 = e2 # c2' \<and> fst e1 = fst e2 \<and> set (snd e1) = set (snd e2) \<and> same_corpus c1 c2')"
  by (cases c2) (auto simp: same_corpus_def case_prod_unfold)

lemma same_corpus_Nil: "same_corpus [] c2 \<longleftrightarrow> c2 = []"
  by (auto simp: same_corpus_def)

lemma same_corpus_length: "same_corpus c1 c2 \<Longrightarrow> length c1 = length c2"
  unfolding same_corpus_def by (metis length_map)

lemma same_corpus_keys: "same_corpus c1 c2 \<Longrightarrow> map fst c1 = map fst c2"
  by (simp add: same_corpus_def)

lemma same_corpus_inbound: "same_corpus c1 c2 \<Longrightarrow> spec_inbound c1 p = spec_inbound c2 p"
proof (induction c1 arbitrary: c2)
  case Nil
  then show ?case by (simp add: same_corpus_Nil)
next
  case (Cons e1 c1)
  then obtain e2 c2' where c2: "c2 = e2 # c2'" "fst e1 = fst e2" "set (snd e1) = set (snd e2)"
    "same_corpus c1 c2'"
    by (auto simp: same_corpus_Cons)
  from Cons.IH [OF c2(4)] c2(1,2,3) show ?case
    by (simp add: spec_inbound_def case_prod_unfold)
qed

lemma same_corpus_links: "same_corpus c1 c2 \<Longrightarrow> set (links_of c1 q) = set (links_of c2 q)"
proof (induction c1 arbitrary: c2)
  case Nil
  then show ?case by (simp add: same_corpus_Nil)
next
  case (Cons e1 c1)
  then obtain e2 c2' where c2: "c2 = e2 # c2'" "fst e1 = fst e2" "set (snd e1) = set (snd e2)"
    "same_corpus c1 c2'"
    by (auto simp: same_corpus_Cons)
  from Cons.IH [OF c2(4)] c2(1,2,3) show ?case
    by (cases e1; cases e2) (simp add: links_of_def)
qed

lemma same_corpus_candidate:
  "same_corpus c1 c2 \<Longrightarrow> spec_candidate c1 d r p = spec_candidate c2 d r p"
  by (simp add: spec_candidate_def same_corpus_length same_corpus_inbound [of c1 c2]
      same_corpus_links [of c1 c2])

lemma same_corpus_round:
  assumes "same_corpus c1 c2"
  shows "spec_round c1 d r = spec_round c2 d r" and "spec_converged c1 d r = spec_converged c2 d r"
proof -
  have eq: "spec_candidate c1 d r = spec_candidate c2 d r"
    by (rule ext) (rule same_corpus_candidate [OF assms])
  show "spec_round c1 d r = spec_round c2 d r"
    unfolding spec_round_def spec_exceeds_def eq by (rule refl)
  show "spec_converged c1 d r = spec_converged c2 d r"
    unfolding spec_converged_def spec_exceeds_def eq by (rule refl)
qed

lemma same_corpus_sym: "same_corpus c1 c2 \<Longrightarrow> same_corpus c2 c1"
  by (simp add: same_corpus_def)

lemma same_corpus_iterate_Some:
  assumes run: "spec_iterate c1 d r = Some y" and same: "same_corpus c1 c2"
  shows "spec_iterate c2 d r = Some y"
proof -
  let ?P = "\<lambda>c1 d r y. \<forall>c2. same_corpus c1 c2 \<longrightarrow> spec_iterate c2 d r = Some y"
  from run have "?P c1 d r y"
  proof (rule spec_iterate.raw_induct [rotated, where P = ?P])
    fix f and c :: "'a corpus" and d r y
    assume IH: "\<And>c d r y. f c d r = Some y \<Longrightarrow> ?P c d r y"
      and body: "(if spec_converged c d r then Some r else f c d (spec_round c d r)) = Some y"
    show "?P c d r y"
    proof (intro allI impI)
      fix c2 assume same: "same_corpus c c2"
      note eq = same_corpus_round [OF same, of d r]
      show "spec_iterate c2 d r = Some y"
      proof (cases "spec_converged c d r")
        case True
        then have "y = r" using body by simp
        then show ?thesis using True eq by (subst spec_iterate.simps) simp
      next
        case False
        then have "f c d (spec_round c d r) = Some y" using body by simp
        from IH [OF this] same have "spec_iterate c2 d (spec_round c d r) = Some y" by simp
        then show ?thesis using False eq by (subst spec_iterate.simps) simp
      qed
    qed
  qed
  with same show ?thesis by simp
qed

lemma same_corpus_iterate:
  assumes "same_corpus c1 c2"
  shows "spec_iterate c1 d r = spec_iterate c2 d r"
proof (cases "spec_iterate c1 d r")
  case (Some y)
  with same_corpus_iterate_Some [OF Some assms] show ?thesis by simp
next
  case None
  show ?thesis
  proof (cases "spec_iterate c2 d r")
    case None' : None
    with None show ?thesis by simp
  next
    case (Some y)
    from same_corpus_iterate_Some [OF Some same_corpus_sym [OF assms]] None show ?thesis by simp
  qed
qed

lemma same_corpus_wf_length:
  assumes "same_corpus c1 c2" "wf_corpus c1" "wf_corpus c2"
  shows "length (links_of c1 q) = length (links_of c2 q)"
proof -
  have "length (links_of c1 q) = card (set (links_of c1 q))"
    using wf_corpus_links [OF assms(2)] by (simp add: distinct_card)
  also have "\<dots> = card (set (links_of c2 q))" using same_corpus_links [OF assms(1)] by simp
  also have "\<dots> = length (links_of c2 q)"
    using wf_corpus_links [OF assms(3)] by (simp add: distinct_card)
  finally show ?thesis .
qed

lemma same_corpus_transition:
  assumes same: "same_corpus c1 c2" and wf: "wf_corpus c1" "wf_corpus c2"
  shows "transition_model c1 page d = transition_model c2 page d"
proof (cases "page \<in> fst ` set c1")
  case False
  moreover have "fst ` set c1 = fst ` set c2"
    using same_corpus_keys [OF same] by (metis list.set_map)
  ultimately show ?thesis by (simp add: transition_model_KeyError)
next
  case True
  have keys: "map fst c1 = map fst c2" using same by (rule same_corpus_keys)
  have in2: "page \<in> fst ` set c2" using True keys by (metis list.set_map)
  obtain l1 where l1: "map_of c1 page = Some l1"
    using True by (cases "map_of c1 page") (auto simp: map_of_eq_None_iff)
  obtain l2 where l2: "map_of c2 page = Some l2"
    using in2 by (cases "map_of c2 page") (auto simp: map_of_eq_None_iff)
  have lo: "links_of c1 page = l1" "links_of c2 page = l2"
    using l1 l2 by (simp_all add: links_of_def)
  have s: "set l1 = set l2" using same_corpus_links [OF same, of page] lo by simp
  have n: "length l1 = length l2" using same_corpus_wf_length [OF same wf, of page] lo by simp
  have d1: "distinct (map fst c1)" and d2: "distinct (map fst c2)"
    using wf by (simp_all add: wf_corpus_def)
  show ?thesis
    unfolding transition_model_eq [OF d1 l1] transition_model_eq [OF d2 l2]
    by (simp add: keys s n same_corpus_length [OF same] del: map_map)
qed

lemma same_corpus_sample_loop:
  assumes same: "same_corpus c1 c2" and wf: "wf_corpus c1" "wf_corpus c2"
  shows "sample_loop c1 d rnds st = sample_loop c2 d rnds st"
proof (induction rnds arbitrary: st)
  case Nil
  then show ?case by (cases st) simp
next
  case (Cons r rnds)
  obtain page samples where st: "st = (page, samples)" by (cases st)
  show ?case
    unfolding st sample_loop.simps same_corpus_transition [OF same wf] Cons.IH
    by (rule refl)
qed

lemma same_corpus_sample:
  assumes same: "same_corpus c1 c2" and wf: "wf_corpus c1" "wf_corpus c2"
  shows "sample_pagerank c1 d n i u = sample_pagerank c2 d n i u"
  unfolding sample_pagerank_def same_corpus_sample_loop [OF same wf]
  by (simp add: same_corpus_keys [OF same] same_corpus_length [OF same])

lemma same_corpus_iterate_pagerank:
  assumes same: "same_corpus c1 c2" and wf: "wf_corpus c1" "wf_corpus c2"
  shows "iterate_pagerank c1 d = iterate_pagerank c2 d"
proof (cases "c1 = []")
  case True
  then show ?thesis using same by (simp add: same_corpus_Nil)
next
  case False
  then have ne2: "c2 \<noteq> []" using same_corpus_length [OF same] by auto
  have init: "spec_initial c1 = spec_initial c2"
    by (simp add: spec_initial_def same_corpus_keys [OF same] same_corpus_length [OF same] del: map_map)
  show ?thesis
    unfolding iterate_pagerank_refines [OF wf(1) False] iterate_pagerank_refines [OF wf(2) ne2]
    by (simp add: init same_corpus_iterate [OF same])
qed

subsection \<open>Sampling when every page has a link\<close>

lemma scan_selects:
  "result \<noteq> [] \<Longrightarrow> rnd \<le> sum_list (map snd result) \<Longrightarrow>
   \<exists>key\<in>fst ` set result. scan result rnd = Some key"
proof (induction result arbitrary: rnd)
  case Nil
  then show ?case by simp
next
  case (Cons e rest)
  obtain k p where e: "e = (k, p)" by (cases e)
  show ?case
  proof (cases "rnd - p \<le> 0")
    case True
    then show ?thesis by (simp add: e)
  next
    case False
    have le: "rnd - p \<le> sum_list (map snd rest)" using Cons.prems(2) e by simp
    have "rest \<noteq> []" using le False by auto
    from Cons.IH [OF this le] show ?thesis using False by (auto simp: e)
  qed
qed

lemma sum_setitem_incr:
  fixes d :: "('k, nat) dict"
  shows "map_of d k = Some c \<Longrightarrow>
    sum_list (map snd (setitem k (c + 1) d)) = sum_list (map snd d) + 1"
  by (induction d) (auto split: if_splits)

lemma sample_loop_counts:
  assumes wf: "wf_corpus corpus"
    and links: "\<forall>(p, ls)\<in>set corpus. ls \<noteq> [] \<and> set ls \<subseteq> fst ` set corpus"
  shows "\<forall>r\<in>set rnds. r \<le> 1 \<Longrightarrow> page \<in> fst ` set corpus \<Longrightarrow>
    map fst samples = map fst corpus \<Longrightarrow>
    \<exists>page' samples'. sample_loop corpus d rnds (page, samples) = Inr (page', samples')
      \<and> page' \<in> fst ` set corpus \<and> map fst samples' = map fst corpus
      \<and> sum_list (map snd samples') = sum_list (map snd samples) + length rnds"
proof (induction rnds arbitrary: page samples)
  case Nil
  then show ?case by simp
next
  case (Cons r rnds)
  have dk: "distinct (map fst corpus)" using wf by (simp add: wf_corpus_def)
  obtain ls where ls: "map_of corpus page = Some ls"
    using Cons.prems(2) by (cases "map_of corpus page") (auto simp: map_of_eq_None_iff)
  then have mem: "(page, ls) \<in> set corpus" by (rule map_of_SomeD)
  then have ls_ok: "ls \<noteq> []" "set ls \<subseteq> fst ` set corpus" using links by auto
  have dl: "distinct ls" using wf mem by (auto simp: wf_corpus_def list_all_iff)
  let ?result = "map (\<lambda>q. (q, (1 - d) / real (length corpus) +
       (if q \<in> set ls then d / real (length ls) else 0))) (map fst corpus)"
  have tm: "transition_model corpus page d = Inr ?result"
    using dk ls by (rule transition_model_eq)
  have total: "sum_list (map snd ?result) = 1"
    using transition_model_sum [OF dk ls dl ls_ok(2) tm] ls_ok(1) by simp
  have ne: "?result \<noteq> []" using mem by auto
  have "r \<le> sum_list (map snd ?result)" using Cons.prems(1) total by simp
  from scan_selects [OF ne this] obtain key where
    key: "key \<in> fst ` set ?result" "scan ?result r = Some key"
    by blast
  have key_in: "key \<in> fst ` set corpus" using key(1) by force
  then have "key \<in> fst ` set samples" using Cons.prems(3) by (metis list.set_map)
  then obtain c where c: "map_of samples key = Some c"
    by (cases "map_of samples key") (auto simp: map_of_eq_None_iff)
  then have "(key, c) \<in> set samples" by (rule map_of_SomeD)
  then have "key \<in> fst ` set samples" by force
  then have keys': "map fst (setitem key (c + 1) samples) = map fst corpus"
    using Cons.prems(3) by (simp add: map_fst_setitem)
  have "\<forall>r\<in>set rnds. r \<le> 1" using Cons.prems(1) by simp
  from Cons.IH [OF this key_in keys'] obtain page' samples' where
    rest: "sample_loop corpus d rnds (key, setitem key (c + 1) samples) = Inr (page', samples')"
      "page' \<in> fst ` set corpus" "map fst samples' = map fst corpus"
      "sum_list (map snd samples') = sum_list (map snd (setitem key (c + 1) samples)) + length rnds"
    by blast
  have "sample_loop corpus d (r # rnds) (page, samples) = Inr (page', samples')"
    using tm key(2) c rest(1) by (simp add: getitem_def)
  moreover have "sum_list (map snd samples') = sum_list (map snd samples) + length (r # rnds)"
    using rest(4) sum_setitem_incr [OF c] by simp
  ultimately show ?case using rest(2,3) by blast
qed

subsection \<open>Where the estimators fail, and where they cannot\<close>

lemma solver_never_divides_by_zero:
  assumes wf: "wf_corpus corpus" and ne: "corpus \<noteq> []" and d: "0 \<le> d" "d < 1"
  shows "iterate_pagerank corpus d \<noteq> Some (Inl ZeroDivisionError)"
proof -
  let ?loop = "iterate_loop corpus (build_inbound corpus) ((1 - d) / real (length corpus)) d
           (spec_initial corpus)"
  have unfold: "iterate_pagerank corpus d =
    (case ?loop of None \<Rightarrow> None
     | Some res \<Rightarrow> (case res of Inl e \<Rightarrow> Some (Inl e) | Inr final_ranks \<Rightarrow> Some (normalize final_ranks)))"
    using ne by (simp add: iterate_pagerank_def py_div_def spec_initial_def Let_def)
  show ?thesis
  proof (cases ?loop)
    case None
    then show ?thesis by (simp add: unfold)
  next
    case (Some res)
    from solver_ranks_positive [OF wf ne d Some] obtain ranks where
      r: "res = Inr ranks" "distinct (map fst ranks)" "0 < sum_list (map snd ranks)"
      by blast
    have "normalize ranks = Inr (map (\<lambda>(k, v). (k, v / sum_list (map snd ranks) * 100)) ranks)"
      using r(2,3) by (intro normalize_ok) simp_all
    then show ?thesis by (simp add: unfold Some r(1))
  qed
qed

lemma iterate_single_one: "iterate_pagerank [(a, [])] 1 = Some (Inl ZeroDivisionError)"
proof -
  have wf: "wf_corpus [(a, [])]" by (simp add: wf_corpus_def)
  have cand: "spec_candidate [(a, [])] 1 r a = 0" for r
    by (simp add: spec_candidate_def spec_inbound_def)
  have 1: "\<not> spec_converged [(a, [])] 1 [(a, 1)]"
    by (simp add: spec_converged_def spec_exceeds_def cand rank_of_def)
  have 2: "spec_round [(a, [])] 1 [(a, 1)] = [(a, 0)]"
    by (simp add: spec_round_def spec_exceeds_def cand rank_of_def)
  have 3: "spec_converged [(a, [])] 1 [(a, 0)]"
    by (simp add: spec_converged_def spec_exceeds_def cand rank_of_def)
  have "spec_iterate [(a, [])] 1 [(a, 1)] = spec_iterate [(a, [])] 1 [(a, 0)]"
    using 1 2 by (subst spec_iterate.simps) simp
  also have "\<dots> = Some [(a, 0)]"
    using 3 by (subst spec_iterate.simps) simp
  finally have "spec_iterate [(a, [])] 1 (spec_initial [(a, [])]) = Some [(a, 0)]"
    by (simp add: spec_initial_def)
  then show ?thesis
    using iterate_pagerank_refines [OF wf, of 1]
    by (simp add: normalize_def getitem_def py_div_def)
qed

lemma sample_single_none:
  assumes "\<forall>i<n. 1 - d < uniform i"
  shows "sample_pagerank [(a, [])] d n 0 uniform = Inl ZeroDivisionError"
proof -
  have "filter (\<lambda>r. r \<le> 1 - d) (map uniform [0..<n]) = []"
    using assms by (auto simp: filter_empty_conv)
  then have "sample_loop [(a, [])] d (map uniform [0..<n]) (a, [(a, 0)]) = Inr (a, [(a, 0)])"
    using sample_loop_single [of a d "map uniform [0..<n]" 0] by simp
  then show ?thesis
    by (simp add: sample_pagerank_def normalize_def getitem_def py_div_def)
qed

text \<open>
  When every page has a link and all links lead into the corpus, the sampler counts every
  draw and \<open>normalize\<close> succeeds.
\<close>

lemma sum_list_real_counts:
  "sum_list (map snd (map (\<lambda>(key, c). (key, real c)) samples)) = real (sum_list (map snd samples))"
  by (induction samples) auto

lemma sample_pagerank_linked:
  assumes wf: "wf_corpus corpus"
    and links: "\<forall>(p, ls)\<in>set corpus. ls \<noteq> [] \<and> set ls \<subseteq> fst ` set corpus"
    and draws: "\<forall>i<n. uniform i \<le> 1" and n: "0 < n" and index: "index < length corpus"
  shows "\<exists>result. sample_pagerank corpus d n index uniform = Inr result
           \<and> map fst result = map fst corpus \<and> sum_list (map snd result) = 100"
proof -
  let ?pages = "map fst corpus"
  let ?samples = "map (\<lambda>page. (page, 0 :: nat)) ?pages"
  have dk: "distinct ?pages" using wf by (simp add: wf_corpus_def)
  have r: "\<forall>r\<in>set (map uniform [0..<n]). r \<le> 1" using draws by auto
  have p: "?pages ! index \<in> fst ` set corpus" using index by (metis length_map list.set_map nth_mem)
  have k: "map fst ?samples = map fst corpus" by (simp add: comp_def)
  from sample_loop_counts [OF wf links r p k, of d] obtain page' samples' where
    run: "sample_loop corpus d (map uniform [0..<n]) (?pages ! index, ?samples) = Inr (page', samples')"
    and keys: "map fst samples' = map fst corpus"
    and total: "sum_list (map snd samples') = sum_list (map snd ?samples) + length (map uniform [0..<n])"
    by blast
  have zero: "sum_list (map snd ?samples) = 0" by (induction corpus) simp_all
  let ?w = "map (\<lambda>(key, c). (key, real c)) samples'"
  have wk: "map fst ?w = map fst corpus" using keys by (simp add: comp_def case_prod_unfold)
  have "sum_list (map snd ?w) = real n"
    using total zero by (simp add: sum_list_real_counts del: map_map)
  then have pos: "0 < sum_list (map snd ?w)" using n by simp
  have dw: "distinct (map fst ?w)" using wk dk by simp
  let ?t = "sum_list (map snd ?w)"
  let ?res = "map (\<lambda>(key, v). (key, v / ?t * 100)) ?w"
  have t: "?t \<noteq> 0" using pos by simp
  have res: "normalize ?w = Inr ?res" using dw t by (rule normalize_ok)
  have rk: "map fst ?res = map fst ?w" by (simp add: comp_def case_prod_unfold)
  have rs: "sum_list (map snd ?res) = 100" using t by (rule sum_normalized) simp
  have "sample_pagerank corpus d n index uniform = normalize ?w"
    using index n run by (auto simp: sample_pagerank_def Let_def)
  then have 1: "sample_pagerank corpus d n index uniform = Inr ?res" by (simp only: res)
  have 2: "map fst ?res = map fst corpus" by (simp only: rk wk)
  from 1 2 rs show ?thesis by blast
qed

subsection \<open>Claims about \<^verbatim>\<open>normalize\<close> and \<^verbatim>\<open>transition_model\<close>\<close>

text \<open>
  C7. For every input dictionary with positive total weight, \<open>normalize\<close> returns a
  dictionary with the same keys, in the same order, each value being
  \<open>(input value / total) * 100\<close>, and the values sum to 100 (in exact arithmetic).
\<close>

theorem normalize_distribution:
  assumes "distinct (map fst d)" and "0 < sum_list (map snd d)"
  shows "\<exists>result. normalize d = Inr result
           \<and> result = map (\<lambda>(key, v). (key, v / sum_list (map snd d) * 100)) d
           \<and> map fst result = map fst d
           \<and> sum_list (map snd result) = 100"
proof -
  let ?t = "sum_list (map snd d)"
  let ?r = "map (\<lambda>(key, v). (key, v / ?t * 100)) d"
  have t: "?t \<noteq> 0" using assms(2) by simp
  have "normalize d = Inr ?r" using assms(1) t by (rule normalize_ok)
  moreover have "map fst ?r = map fst d" by (simp add: comp_def case_prod_unfold)
  moreover have "sum_list (map snd ?r) = 100" using t by (rule sum_normalized) simp
  ultimately show ?thesis by blast
qed

theorem normalize_distribution_witness:
  "distinct (map fst [(''A'', 1 :: real), (''B'', 3)])
   \<and> 0 < sum_list (map snd [(''A'', 1 :: real), (''B'', 3)])
   \<and> normalize [(''A'', 1), (''B'', 3)] = Inr [(''A'', 25), (''B'', 75)]"
  using normalize_distribution [of "[(''A'', 1), (''B'', 3)]"] by simp

text \<open>
  C2. For every corpus with distinct keys and every page \<open>page\<close> of the corpus, whose
  links are the set \<open>links\<close>, \<open>transition_model\<close> returns a dictionary with exactly the
  keys of the corpus (in the corpus's order) that gives each page \<open>q\<close> the value
  \<open>(1 - d) / N + d / |links|\<close> if \<open>q\<close> is in \<open>links\<close> and \<open>(1 - d) / N\<close> otherwise,
  \<open>N\<close> being the number of pages. This holds for every damping factor, in particular
  for those in \<open>[0, 1]\<close>.
\<close>

theorem transition_model_values:
  assumes "distinct (map fst corpus)" and "map_of corpus page = Some links"
    and "distinct links"
  shows "\<exists>result. transition_model corpus page d = Inr result
           \<and> map fst result = map fst corpus
           \<and> (\<forall>q \<in> fst ` set corpus.
                 map_of result q =
                   Some (if q \<in> set links
                         then (1 - d) / real (length corpus) + d / real (card (set links))
                         else (1 - d) / real (length corpus)))"
proof -
  let ?v = "\<lambda>q. (1 - d) / real (length corpus) +
                 (if q \<in> set links then d / real (length links) else 0)"
  let ?r = "map (\<lambda>q. (q, ?v q)) (map fst corpus)"
  have r: "transition_model corpus page d = Inr ?r"
    using assms(1,2) by (rule transition_model_eq)
  have keys: "map fst ?r = map fst corpus" by (simp add: comp_def)
  have card: "card (set links) = length links" using assms(3) by (rule distinct_card)
  have "map_of ?r q = Some (if q \<in> set links
          then (1 - d) / real (length corpus) + d / real (card (set links))
          else (1 - d) / real (length corpus))" if "q \<in> fst ` set corpus" for q
  proof -
    have "q \<in> set (map fst corpus)" using that by simp
    then have "map_of ?r q = Some (?v q)" by (rule map_of_key_value)
    then show ?thesis unfolding card by (simp split: if_splits)
  qed
  with r keys show ?thesis by blast
qed

theorem transition_model_values_witness:
  "distinct (map fst [(''A'', [''B'']), (''B'', [''A'', ''C'']), (''C'', [''A''])])
   \<and> map_of [(''A'', [''B'']), (''B'', [''A'', ''C'']), (''C'', [''A''])] ''B'' = Some [''A'', ''C'']
   \<and> distinct [''A'', ''C'']
   \<and> transition_model [(''A'', [''B'']), (''B'', [''A'', ''C'']), (''C'', [''A''])] ''B'' (1 / 2)
       = Inr [(''A'', 5 / 12), (''B'', 1 / 6), (''C'', 5 / 12)]"
proof -
  let ?c = "[(''A'', [''B'']), (''B'', [''A'', ''C'']), (''C'', [''A''])]"
  have h1: "distinct (map fst ?c)" by simp
  have h2: "map_of ?c ''B'' = Some [''A'', ''C'']" by simp
  have h3: "distinct [''A'', ''C'']" by simp
  have "transition_model ?c ''B'' (1 / 2) = Inr [(''A'', 5 / 12), (''B'', 1 / 6), (''C'', 5 / 12)]"
    by (simp add: transition_model_def getitem_def py_div_def)
  with h1 h2 h3 transition_model_values [OF h1 h2 h3, of "1 / 2"] show ?thesis by simp
qed

text \<open>
  C1. The claim is that the values returned by \<open>transition_model\<close> always sum to 1, also
  for a page without outbound links. For such a page the code adds nothing to the
  uniform term, so the values sum to \<open>1 - d\<close> (see \<open>transition_model_sum\<close>): on the
  corpus \<^verbatim>\<open>{"A": set()}\<close> with damping factor 0.5 the result is \<^verbatim>\<open>{"A": 0.5}\<close>.
\<close>

theorem transition_model_dangling_sum:
  "transition_model [(''A'', [])] ''A'' (1 / 2) = Inr [(''A'', 1 / 2)]
   \<and> sum_list (map snd [(''A'', 1 / 2 :: real)]) \<noteq> 1"
  by (simp add: transition_model_def getitem_def py_div_def)

subsection \<open>Claims about \<^verbatim>\<open>iterate_pagerank\<close>\<close>

text \<open>
  C3. For every non-empty, well-formed corpus and every damping factor (in particular
  every one in \<open>[0, 1)\<close>), \<open>iterate_pagerank\<close> is the specification's solver followed
  by \<open>normalize\<close>: it starts every rank at \<open>1 / N\<close> (\<open>spec_initial\<close>); in each round the
  candidate of every page \<open>p\<close> is \<open>(1 - d) / N + d * (\<Sum> q in inbound(p). rank(q) /
  |links(q)|)\<close>, computed from the ranks of the previous round (\<open>spec_candidate\<close>); the
  round commits the candidates of exactly the pages whose absolute change exceeds
  \<open>1 / 1000\<close> (\<open>spec_round\<close>); and the loop stops exactly at the first round that
  commits nothing (\<open>spec_converged\<close>). In particular the code returns if and only if
  the specification's loop does, and no exception is raised inside the loop.
\<close>

theorem iterate_pagerank_rounds:
  assumes "wf_corpus corpus" and "corpus \<noteq> []"
  shows "iterate_pagerank corpus d =
    (case spec_iterate corpus d (spec_initial corpus) of
       None \<Rightarrow> None
     | Some ranks \<Rightarrow> Some (normalize ranks))"
  using assms by (rule iterate_pagerank_refines)

theorem iterate_pagerank_rounds_witness:
  "wf_corpus [(''A'', [''B'']), (''B'', [])] \<and> [(''A'', [''B'']), (''B'', [])] \<noteq> []
  \<and> iterate_pagerank [(''A'', [''B'']), (''B'', [])] (1 / 2) = Some (Inr [(''A'', 40), (''B'', 60)])"
proof -
  let ?c = "[(''A'', [''B'']), (''B'', [])]"
  have wf: "wf_corpus ?c" by (simp add: wf_corpus_def)
  have ne: "?c \<noteq> []" by simp
  have cA: "spec_candidate ?c (1 / 2) r ''A'' = 1 / 4" for r
    by (simp add: spec_candidate_def spec_inbound_def)
  have cB: "spec_candidate ?c (1 / 2) r ''B'' = 1 / 4 + rank_of r ''A'' / 2" for r
    by (simp add: spec_candidate_def spec_inbound_def links_of_def)
  have r0: "spec_initial ?c = [(''A'', 1 / 2), (''B'', 1 / 2)]"
    by (simp add: spec_initial_def)
  have s1: "spec_iterate ?c (1 / 2) [(''A'', 1 / 2), (''B'', 1 / 2)]
      = spec_iterate ?c (1 / 2) [(''A'', 1 / 4), (''B'', 1 / 2)]"
    by (subst spec_iterate.simps)
       (simp add: spec_converged_def spec_round_def spec_exceeds_def cA cB rank_of_def)
  have s2: "spec_iterate ?c (1 / 2) [(''A'', 1 / 4), (''B'', 1 / 2)]
      = spec_iterate ?c (1 / 2) [(''A'', 1 / 4), (''B'', 3 / 8)]"
    by (subst spec_iterate.simps)
       (simp add: spec_converged_def spec_round_def spec_exceeds_def cA cB rank_of_def)
  have s3: "spec_iterate ?c (1 / 2) [(''A'', 1 / 4), (''B'', 3 / 8)]
      = Some [(''A'', 1 / 4), (''B'', 3 / 8)]"
    by (subst spec_iterate.simps)
       (simp add: spec_converged_def spec_round_def spec_exceeds_def cA cB rank_of_def)
  have n: "normalize [(''A'', 1 / 4), (''B'', 3 / 8 :: real)] = Inr [(''A'', 40), (''B'', 60)]"
    by (simp add: normalize_def getitem_def py_div_def)
  show ?thesis
    using iterate_pagerank_rounds [OF wf ne, of "1 / 2"] wf
    by (simp add: r0 s1 s2 s3 n)
qed

text \<open>
  C10. For every corpus, also one with links to pages that are not keys, the inbound-link
  index built by \<open>iterate_pagerank\<close> has exactly the keys of the corpus, in the same
  order; looking up any other page raises \<^verbatim>\<open>KeyError\<close>; and the entry of a key \<open>p\<close> holds
  exactly the keys whose links contain \<open>p\<close>. A link to a page outside the corpus
  therefore appears in no entry, and no rank sum ranges over it.
\<close>

theorem inbound_index_keys:
  "map fst (build_inbound corpus) = map fst corpus
   \<and> (\<forall>t. t \<notin> fst ` set corpus \<longrightarrow> getitem (build_inbound corpus) t = Inl KeyError)
   \<and> (\<forall>p \<in> fst ` set corpus. \<exists>xs. map_of (build_inbound corpus) p = Some xs
          \<and> set xs = {q. \<exists>ls. (q, ls) \<in> set corpus \<and> p \<in> set ls})"
proof (intro conjI allI impI ballI)
  show keys: "map fst (build_inbound corpus) = map fst corpus" by (rule build_inbound_keys)
  fix t assume "t \<notin> fst ` set corpus"
  then have "t \<notin> set (map fst (build_inbound corpus))" by (simp add: keys)
  then have "t \<notin> fst ` set (build_inbound corpus)" by simp
  then show "getitem (build_inbound corpus) t = Inl KeyError" by (rule getitem_Inl)
next
  fix p assume "p \<in> fst ` set corpus"
  from build_inbound_entry [OF this]
  show "\<exists>xs. map_of (build_inbound corpus) p = Some xs
          \<and> set xs = {q. \<exists>ls. (q, ls) \<in> set corpus \<and> p \<in> set ls}"
    by blast
qed

theorem inbound_index_keys_witness:
  "build_inbound [(''A'', [''B'', ''X'']), (''B'', [''A''])] = [(''A'', [''B'']), (''B'', [''A''])]
   \<and> ''X'' \<notin> fst ` set [(''A'', [''B'', ''X'']), (''B'', [''A''])]
   \<and> getitem (build_inbound [(''A'', [''B'', ''X'']), (''B'', [''A''])]) ''X'' = Inl KeyError
   \<and> ''A'' \<in> fst ` set [(''A'', [''B'', ''X'']), (''B'', [''A''])]
   \<and> map_of (build_inbound [(''A'', [''B'', ''X'']), (''B'', [''A''])]) ''A'' = Some [''B'']"
proof -
  have b: "build_inbound [(''A'', [''B'', ''X'']), (''B'', [''A''])] = [(''A'', [''B'']), (''B'', [''A''])]"
    by (simp add: build_inbound_def add_inbound_def)
  show ?thesis
    using inbound_index_keys [of "[(''A'', [''B'', ''X'']), (''B'', [''A''])]"]
    by (simp add: b)
qed

text \<open>
  C4. The claim is that on the corpus \<^verbatim>\<open>{"A": set()}\<close> both estimators return all of
  the probability on \<^verbatim>\<open>A\<close>, for every damping factor and every \<open>n \<ge> 1\<close>. With the
  damping factor 0.5, \<open>n = 2\<close> and both draws 0.75, no draw selects the page (its
  distribution is \<^verbatim>\<open>{"A": 0.5}\<close>), the counters stay \<^verbatim>\<open>{"A": 0}\<close> and
  \<open>sample_pagerank\<close> raises \<^verbatim>\<open>ZeroDivisionError\<close> in \<open>normalize\<close>. With the damping
  factor 1, \<open>iterate_pagerank\<close> lowers the only rank to 0 and fails in the same way.
  (Where they do return, both return \<^verbatim>\<open>{"A": 100.0}\<close>, the percentage form of
  probability 1: \<open>iterate_single\<close>, \<open>sample_single\<close>.)
\<close>

theorem single_page_estimators_fail:
  "sample_pagerank [(''A'', [])] (1 / 2) 2 0 (constant_source (3 / 4)) = Inl ZeroDivisionError
   \<and> iterate_pagerank [(''A'', [])] 1 = Some (Inl ZeroDivisionError)"
proof -
  have "sample_pagerank [(''A'', [])] (1 / 2) 2 0 (constant_source (3 / 4)) = Inl ZeroDivisionError"
    by (rule sample_single_none) (simp add: constant_source_def)
  then show ?thesis by (simp add: iterate_single_one)
qed

subsection \<open>Claims about \<^verbatim>\<open>sample_pagerank\<close> and about failures\<close>

text \<open>
  C5. The claim is that each of the \<open>n\<close> iterations of the sampling loop selects a page
  and increments exactly one counter, so that the counters sum to \<open>n\<close>. On the corpus
  \<^verbatim>\<open>{"A": set()}\<close> with damping factor 0.5, \<open>n = 1\<close> and the draw 0.75, the distribution
  of the only page is \<^verbatim>\<open>{"A": 0.5}\<close>, the scan ends without a break, and the counters
  still sum to 0 after the loop. (When every page has at least one link, all links lead
  into the corpus and no draw exceeds 1, every iteration does increment one counter:
  \<open>sample_loop_counts\<close>.)
\<close>

theorem sampling_skips_a_draw:
  "sample_loop [(''A'', [])] (1 / 2) (map (constant_source (3 / 4)) [0..<1]) (''A'', [(''A'', 0)])
     = Inr (''A'', [(''A'', 0)])
   \<and> sum_list (map snd [(''A'', 0 :: nat)]) \<noteq> 1"
  by (simp add: transition_model_def getitem_def py_div_def constant_source_def)

text \<open>
  C6. The claim is that \<open>normalize\<close> fails when the total of its input is zero, and that
  the two estimators never pass it such an input when the corpus is non-empty and the
  damping factor is positive. On \<^verbatim>\<open>{"A": set()}\<close> with damping factor 0.5 and one draw
  of 0.75 the sampling loop ends with the counters \<^verbatim>\<open>{"A": 0}\<close>; \<open>sample_pagerank\<close>
  passes them to \<open>normalize\<close>, which raises \<^verbatim>\<open>ZeroDivisionError\<close>. (The rest of the
  claim holds: \<open>normalize_fails_on_zero\<close>; for \<open>iterate_pagerank\<close> with a damping factor
  in \<open>[0, 1)\<close>, \<open>solver_ranks_positive\<close> and \<open>solver_never_divides_by_zero\<close>; for
  \<open>sample_pagerank\<close> on a corpus in which every page has a link,
  \<open>sample_pagerank_linked\<close>.)
\<close>

theorem sampler_passes_zero_total:
  "sample_loop [(''A'', [])] (1 / 2) [3 / 4] (''A'', [(''A'', 0)]) = Inr (''A'', [(''A'', 0)])
   \<and> normalize [(''A'', real 0)] = Inl ZeroDivisionError
   \<and> sample_pagerank [(''A'', [])] (1 / 2) 1 0 (constant_source (3 / 4)) = Inl ZeroDivisionError"
  by (simp add: normalize_def sample_pagerank_def transition_model_def getitem_def py_div_def
      constant_source_def)

text \<open>
  C8. The claim is that every call with invalid input is rejected. No operation checks
  the damping factor: with the damping factor 2 \<open>transition_model\<close> returns
  \<^verbatim>\<open>{"A": -1.0}\<close> and \<open>iterate_pagerank\<close> returns \<^verbatim>\<open>{"A": 100.0}\<close>.
\<close>

theorem damping_factor_not_checked:
  "transition_model [(''A'', [])] ''A'' 2 = Inr [(''A'', - 1)]
   \<and> iterate_pagerank [(''A'', [])] 2 = Some (Inr [(''A'', 100)])"
proof -
  have "iterate_pagerank [(''A'', [])] 2 = Some (Inr [(''A'', 100)])"
    by (rule iterate_single) simp
  then show ?thesis by (simp add: transition_single)
qed

text \<open>
  C8, as amended. A page that is not a key of the corpus makes \<open>transition_model\<close> raise
  \<^verbatim>\<open>KeyError\<close>, which covers the empty corpus; on the empty corpus \<open>iterate_pagerank\<close>
  raises \<^verbatim>\<open>ZeroDivisionError\<close> and \<open>sample_pagerank\<close> raises \<^verbatim>\<open>ValueError\<close>. None of
  them returns a result. A damping factor outside \<open>[0, 1)\<close> is not rejected: for a page
  of the corpus \<open>transition_model\<close> returns a result whatever the damping factor.
\<close>

theorem invalid_input_rejected:
  "((page :: 'p) \<notin> fst ` set corpus \<longrightarrow> transition_model corpus page d = Inl KeyError)
   \<and> transition_model [] page d = Inl KeyError
   \<and> iterate_pagerank ([] :: 'p corpus) d = Some (Inl ZeroDivisionError)
   \<and> sample_pagerank ([] :: 'p corpus) d n index uniform = Inl ValueError
   \<and> (page \<in> fst ` set corpus \<longrightarrow> (\<exists>result. transition_model corpus page d = Inr result))"
proof -
  have "\<exists>result. transition_model corpus page d = Inr result" if mem: "page \<in> fst ` set corpus"
  proof -
    have "map_of corpus page \<noteq> None" using mem by (simp add: map_of_eq_None_iff)
    then obtain links where "map_of corpus page = Some links" by blast
    moreover have "corpus \<noteq> []" using mem by auto
    ultimately show ?thesis by (simp add: transition_model_def getitem_def py_div_def Let_def)
  qed
  then show ?thesis by (simp add: transition_model_KeyError iterate_empty sample_empty)
qed

theorem invalid_input_rejected_witness:
  "''B'' \<notin> fst ` set [(''A'', [''A''])]
   \<and> transition_model [(''A'', [''A''])] ''B'' (1 / 2) = Inl KeyError
   \<and> ''A'' \<in> fst ` set [(''A'', [''A''])]
   \<and> transition_model [(''A'', [''A''])] ''A'' 2 = Inr [(''A'', 1)]"
proof -
  have "transition_model [(''A'', [''A''])] ''A'' 2 = Inr [(''A'', 1)]"
    by (simp add: transition_model_def getitem_def py_div_def)
  with invalid_input_rejected [of "''B''" "[(''A'', [''A''])]" "1 / 2" 1 0 "constant_source 0"]
    invalid_input_rejected [of "''A''" "[(''A'', [''A''])]" 2 1 0 "constant_source 0"]
  show ?thesis by simp
qed

end
